theory Spec2Isabelle
  imports Complex_Main "HOL-Library.AList"
begin

section \<open>Data model of \<^verbatim>\<open>src/index.ts\<close>\<close>

subsection \<open>JavaScript numbers and values\<close>

text \<open>
  A JavaScript number is a rational or one of \<^verbatim>\<open>NaN\<close>, \<^verbatim>\<open>-Infinity\<close>, \<^verbatim>\<open>Infinity\<close>. The
  operations below are those of the language on these values; the rounding of floating point
  and the sign of zero are not modelled. Where the program does arithmetic with, or compares,
  a property that is undefined, the language converts it to \<^verbatim>\<open>NaN\<close>: in those places
  \<open>NaN\<close> also stands for undefined.
\<close>

datatype jsnum = NaN | NegInf | Fin rat | PosInf

text \<open>The comparisons \<^verbatim>\<open>a < b\<close>, \<^verbatim>\<open>a > b\<close> and \<^verbatim>\<open>a <= b\<close>.\<close>

fun js_less :: "jsnum \<Rightarrow> jsnum \<Rightarrow> bool" where
  "js_less NaN b = False"
| "js_less a NaN = False"
| "js_less a NegInf = False"
| "js_less NegInf b = True"
| "js_less PosInf b = False"
| "js_less (Fin a) PosInf = True"
| "js_less (Fin a) (Fin b) = (a < b)"

definition js_greater :: "jsnum \<Rightarrow> jsnum \<Rightarrow> bool" where
  "js_greater a b = js_less b a"

definition js_le :: "jsnum \<Rightarrow> jsnum \<Rightarrow> bool" where
  "js_le a b = (a \<noteq> NaN \<and> b \<noteq> NaN \<and> \<not> js_less b a)"

text \<open>\<^verbatim>\<open>a + b\<close>, \<^verbatim>\<open>-a\<close>, \<^verbatim>\<open>a - b\<close>, \<^verbatim>\<open>a * b\<close>, \<^verbatim>\<open>a / b\<close> and \<^verbatim>\<open>Math.max(a, b)\<close>.\<close>

fun js_add :: "jsnum \<Rightarrow> jsnum \<Rightarrow> jsnum" where
  "js_add NaN b = NaN"
| "js_add a NaN = NaN"
| "js_add (Fin a) (Fin b) = Fin (a + b)"
| "js_add PosInf NegInf = NaN"
| "js_add NegInf PosInf = NaN"
| "js_add PosInf b = PosInf"
| "js_add a PosInf = PosInf"
| "js_add NegInf b = NegInf"
| "js_add a NegInf = NegInf"

fun js_neg :: "jsnum \<Rightarrow> jsnum" where
  "js_neg NaN = NaN"
| "js_neg NegInf = PosInf"
| "js_neg PosInf = NegInf"
| "js_neg (Fin a) = Fin (- a)"

definition js_sub :: "jsnum \<Rightarrow> jsnum \<Rightarrow> jsnum" where
  "js_sub a b = js_add a (js_neg b)"

text \<open>The sign of a number other than \<^verbatim>\<open>NaN\<close>, as an integer; zero counts as positive zero.\<close>

fun js_sign :: "jsnum \<Rightarrow> int" where
  "js_sign NaN = 0"
| "js_sign NegInf = - 1"
| "js_sign PosInf = 1"
| "js_sign (Fin a) = (if a < 0 then - 1 else if a = 0 then 0 else 1)"

definition infinity_of :: "int \<Rightarrow> jsnum" where
  "infinity_of sg = (if sg = 0 then NaN else if sg < 0 then NegInf else PosInf)"

fun js_mul :: "jsnum \<Rightarrow> jsnum \<Rightarrow> jsnum" where
  "js_mul NaN b = NaN"
| "js_mul a NaN = NaN"
| "js_mul (Fin a) (Fin b) = Fin (a * b)"
| "js_mul a b = infinity_of (js_sign a * js_sign b)"

fun js_div :: "jsnum \<Rightarrow> jsnum \<Rightarrow> jsnum" where
  "js_div NaN b = NaN"
| "js_div a NaN = NaN"
| "js_div (Fin a) (Fin b) =
     (if b = 0 then infinity_of (js_sign (Fin a)) else Fin (a / b))"
| "js_div (Fin a) b = Fin 0"
| "js_div a (Fin b) = infinity_of (js_sign a * (if b < 0 then - 1 else 1))"
| "js_div a b = NaN"

definition js_max :: "jsnum \<Rightarrow> jsnum \<Rightarrow> jsnum" where
  "js_max a b = (if a = NaN \<or> b = NaN then NaN else if js_less a b then b else a)"

text \<open>A number is falsy when it is zero or \<^verbatim>\<open>NaN\<close>.\<close>

definition js_truthy :: "jsnum \<Rightarrow> bool" where
  "js_truthy a = (a \<noteq> NaN \<and> a \<noteq> Fin 0)"

text \<open>
  The values that an operation resolves with, rejects with or throws. \<open>Val n\<close> is an object
  that is not an error, \<open>Error n\<close> an \<^verbatim>\<open>Error\<close> object; every object is truthy.
\<close>

datatype jsval = Undefined | Null | Bool bool | Num jsnum | Str string | Val nat | Error nat

fun truthy :: "jsval \<Rightarrow> bool" where
  "truthy Undefined = False"
| "truthy Null = False"
| "truthy (Bool b) = b"
| "truthy (Num a) = js_truthy a"
| "truthy (Str s) = (s \<noteq> [])"
| "truthy (Val n) = True"
| "truthy (Error n) = True"

subsection \<open>Rules and the configuration\<close>

record Rule =
  rate :: jsnum
  limit :: jsnum
  priority :: jsnum

text \<open>
  What a lookup \<^verbatim>\<open>rules[name]\<close> can return besides undefined: a rule object, or, since
  \<^verbatim>\<open>rules\<close> is a plain object, the value that \<^verbatim>\<open>Object.prototype\<close> has under that name
  (a function; the prototype itself for \<^verbatim>\<open>__proto__\<close>). Such a value is truthy and has none
  of the properties \<^verbatim>\<open>rate\<close>, \<^verbatim>\<open>limit\<close>, \<^verbatim>\<open>priority\<close>: they read undefined.
\<close>

datatype rule_value = RuleObj Rule | Inherited string

fun rate_of :: "rule_value \<Rightarrow> jsnum" where
  "rate_of (RuleObj r) = rate r"
| "rate_of (Inherited n) = NaN"

fun limit_of :: "rule_value \<Rightarrow> jsnum" where
  "limit_of (RuleObj r) = limit r"
| "limit_of (Inherited n) = NaN"

fun priority_of_rule :: "rule_value \<Rightarrow> jsnum" where
  "priority_of_rule (RuleObj r) = priority r"
| "priority_of_rule (Inherited n) = NaN"

definition Object_prototype :: "string list" where
  "Object_prototype =
     [''constructor'', ''__defineGetter__'', ''__defineSetter__'', ''hasOwnProperty'',
      ''__lookupGetter__'', ''__lookupSetter__'', ''isPrototypeOf'', ''propertyIsEnumerable'',
      ''toString'', ''valueOf'', ''__proto__'', ''toLocaleString'']"

text \<open>
  \<^verbatim>\<open>rules[name]\<close>, for the own properties \<open>rs\<close> of the object: an own property first, then
  the prototype. An own property that holds undefined reads like an absent one (no name of
  \<^verbatim>\<open>Object.prototype\<close> is ever given such a property by the program).
\<close>

definition rules_at :: "(string \<Rightarrow> rule_value option) \<Rightarrow> string \<Rightarrow> rule_value option" where
  "rules_at rs name =
     (case rs name of
        Some v \<Rightarrow> Some v
      | None \<Rightarrow> if name \<in> set Object_prototype then Some (Inherited name) else None)"
text \<open>
  \<^verbatim>\<open>QueueItemData\<close>. The functions \<^verbatim>\<open>request\<close> and \<^verbatim>\<open>callback\<close> are kept
  as handles: what an operation does when it runs is an input of the model (see the events
  below), and a callback handle names the promise that \<^verbatim>\<open>request()\<close> returned.
  Random identifiers are drawn from a counter.
\<close>

record QueueItemData =
  id_d :: nat
  request :: nat
  callback :: nat

text \<open>
  \<^verbatim>\<open>QueueItem\<close>: one partition. \<^verbatim>\<open>rule\<close> is what \<^verbatim>\<open>getRule\<close> returned, \<open>None\<close> for
  undefined.
\<close>

record QueueItem =
  id_q :: nat
  cooldown :: jsnum
  key :: string
  data :: "QueueItemData list"
  rule :: "rule_value option"
  ruleName :: string

text \<open>\<^verbatim>\<open>ShiftItemStructure\<close>; the queue is a reference to a partition object.\<close>

record ShiftItemStructure =
  queue_s :: nat
  item :: QueueItemData

text \<open>
  \<^verbatim>\<open>QueueConfig\<close>; \<^verbatim>\<open>default.rule\<close> and \<^verbatim>\<open>default.key\<close> are the fields
  \<open>default_rule\<close> and \<open>default_key\<close>. \<open>rules\<close> holds the own properties of the object
  \<^verbatim>\<open>rules\<close>; the program reads it through \<open>rules_at\<close>.
\<close>

record QueueConfig =
  rules :: "string \<Rightarrow> rule_value option"
  default_rule :: string
  default_key :: string
  overall :: Rule
  retryTime :: jsnum
  ignoreOverallOverheat :: bool

text \<open>\<^verbatim>\<open>Partial<QueueConfig>\<close>, the argument of the constructor.\<close>

record PartialConfig =
  p_rules :: "(string \<Rightarrow> rule_value option) option"
  p_default :: "(string \<times> string) option"
  p_overall :: "Rule option"
  p_retryTime :: "jsnum option"
  p_ignoreOverallOverheat :: "bool option"

text \<open>The constant \<^verbatim>\<open>defaultParams\<close>, as the module creates it.\<close>

definition defaultParams :: QueueConfig where
  "defaultParams =
     \<lparr>rules = [''common'' \<mapsto> RuleObj \<lparr>rate = Fin 30, limit = Fin 1, priority = Fin 3\<rparr>],
      default_rule = ''common'', default_key = ''common'',
      overall = \<lparr>rate = Fin 30, limit = Fin 1, priority = Fin 1\<rparr>,
      retryTime = Fin 300, ignoreOverallOverheat = True\<rparr>"

text \<open>
  \<^verbatim>\<open>Object.assign({}, defaultParams, params)\<close>: a shallow merge, field by field. An instance
  built without rules of its own therefore gets the object \<^verbatim>\<open>defaultParams.rules\<close> itself,
  with every name that earlier instances have registered in it: \<open>dr\<close> is the content of
  that object when the constructor runs.
\<close>

definition assign_params :: "(string \<Rightarrow> rule_value option) \<Rightarrow> PartialConfig \<Rightarrow> QueueConfig" where
  "assign_params dr p =
     \<lparr>rules = (case p_rules p of None \<Rightarrow> dr | Some r \<Rightarrow> r),
      default_rule = (case p_default p of None \<Rightarrow> default_rule defaultParams | Some d \<Rightarrow> fst d),
      default_key = (case p_default p of None \<Rightarrow> default_key defaultParams | Some d \<Rightarrow> snd d),
      overall = (case p_overall p of None \<Rightarrow> overall defaultParams | Some r \<Rightarrow> r),
      retryTime = (case p_retryTime p of None \<Rightarrow> retryTime defaultParams | Some t \<Rightarrow> t),
      ignoreOverallOverheat =
        (case p_ignoreOverallOverheat p of None \<Rightarrow> ignoreOverallOverheat defaultParams
         | Some b \<Rightarrow> b)\<rparr>"

subsection \<open>The state of a \<^verbatim>\<open>SmartQueue\<close> and of the event loop around it\<close>

text \<open>
  An execution of \<^verbatim>\<open>execute\<close> that has popped its item: the item with its partition, and the
  two variables \<^verbatim>\<open>retryState\<close> and \<^verbatim>\<open>retryTimer\<close> that the closure \<^verbatim>\<open>retryFn\<close> writes.
\<close>

record Execution =
  nextItem :: ShiftItemStructure
  retryState :: bool
  retryTimer :: jsnum

text \<open>
  Where the dispatch loop (the chain of \<^verbatim>\<open>execute\<close> calls) stands:
  \<^item> \<open>NoLoop\<close>: no call of \<^verbatim>\<open>execute\<close> is waiting to pop;
  \<^item> \<open>ShiftPending q\<close>: \<^verbatim>\<open>findMostImportant\<close> has returned \<open>q\<close> and the continuation of
    \<^verbatim>\<open>shift\<close> is a queued microtask;
  \<^item> \<open>Invoking x\<close>: the item was popped and its operation is running synchronously;
  \<^item> \<open>Sleeping d\<close>: \<^verbatim>\<open>findMostImportant\<close> awaits \<^verbatim>\<open>delay\<close>, whose timeout can run from
    time \<open>d\<close> on.
\<close>

datatype loop_state =
  NoLoop
| ShiftPending "nat option"
| Invoking Execution
| Sleeping rat

text \<open>The callbacks given to \<^verbatim>\<open>setTimeout\<close>, with the variables they captured.\<close>

datatype timer_callback =
  CooldownTimeout nat jsnum
| HeatTimeout jsnum
| RetryDelay ShiftItemStructure

text \<open>How the promise of \<^verbatim>\<open>request()\<close> was settled by its callback.\<close>

datatype settlement = Rejected jsval | Fulfilled jsval

text \<open>One pop, as recorded by the model: time, partition, its key, its cooldown before, the item.\<close>

record Dispatch =
  d_time :: rat
  d_queue :: nat
  d_key :: string
  d_cooldown :: jsnum
  d_item :: QueueItemData

text \<open>
  The fields \<open>params\<close>, \<open>queue\<close>, \<open>overheat\<close>, \<open>pending\<close> and \<open>heatPart\<close> are those of the class.
  The \<^verbatim>\<open>Map\<close> \<open>queue\<close> is a list of keys with references, in insertion order; the partition
  objects live in \<open>heap\<close>, since timers and executions keep references to them. \<open>now\<close> is
  what \<^verbatim>\<open>Date.now()\<close> returns. \<open>timers\<close> holds the pending timeouts: for each, the time of
  the call of \<^verbatim>\<open>setTimeout\<close>, the delay it was given, and the callback. \<open>running\<close> holds
  the executions awaiting their operation. \<open>dispatched\<close> and \<open>settled\<close> record the pops and
  the completion callbacks that have happened.
\<close>

record SmartQueue =
  params :: QueueConfig
  queue :: "(string \<times> nat) list"
  overheat :: jsnum
  pending :: bool
  heatPart :: jsnum
  heap :: "nat \<Rightarrow> QueueItem"
  now :: rat
  loop :: loop_state
  timers :: "((rat \<times> jsnum) \<times> timer_callback) list"
  running :: "Execution list"
  nextId :: nat
  dispatched :: "Dispatch list"
  settled :: "(nat \<times> settlement) list"

definition emptyQueueItem :: QueueItem where
  "emptyQueueItem =
     \<lparr>id_q = 0, cooldown = Fin 0, key = [], data = [], rule = None, ruleName = []\<rparr>"

text \<open>
  The constructor, called at time \<open>t0\<close> when the object \<^verbatim>\<open>defaultParams.rules\<close> holds \<open>dr\<close>;
  \<open>constructor\<close> is the first construction after the module was loaded.
\<close>

definition constructor_at :: "(string \<Rightarrow> rule_value option) \<Rightarrow> PartialConfig \<Rightarrow> rat \<Rightarrow> SmartQueue" where
  "constructor_at dr p t0 =
     (let ps = assign_params dr p in
      \<lparr>params = ps, queue = [], overheat = Fin t0, pending = False,
       heatPart = js_div (js_mul (limit (overall ps)) (Fin 1000)) (rate (overall ps)),
       heap = (\<lambda>a. emptyQueueItem), now = t0, loop = NoLoop, timers = [], running = [],
       nextId = 0, dispatched = [], settled = []\<rparr>)"

definition constructor :: "PartialConfig \<Rightarrow> rat \<Rightarrow> SmartQueue" where
  "constructor p t0 = constructor_at (rules defaultParams) p t0"
section \<open>The methods of the class\<close>

subsection \<open>Timeouts\<close>

text \<open>
  \<^verbatim>\<open>setTimeout(callback, d)\<close> as Node.js implements it: a delay that is not a number between
  1 and \<^verbatim>\<open>2^31 - 1\<close> is replaced by 1, and the delay is then cut to whole milliseconds.
  \<open>timeout_after d\<close> is the resulting number of milliseconds, \<open>due\<close> the time from which the
  timeout can run. The clock of the timers is taken to be the one \<^verbatim>\<open>Date.now()\<close> reads.
\<close>

definition timeout_after :: "jsnum \<Rightarrow> rat" where
  "timeout_after d =
     (case d of
        Fin r \<Rightarrow> if 1 \<le> r \<and> r \<le> 2147483647 then of_int \<lfloor>r\<rfloor> else 1
      | _ \<Rightarrow> 1)"

definition due :: "rat \<times> jsnum \<Rightarrow> rat" where
  "due td = fst td + timeout_after (snd td)"

definition setTimeout :: "timer_callback \<Rightarrow> jsnum \<Rightarrow> SmartQueue \<Rightarrow> SmartQueue" where
  "setTimeout cb d s = s\<lparr>timers := timers s @ [((now s, d), cb)]\<rparr>"

subsection \<open>The partition store\<close>

text \<open>
  \<^verbatim>\<open>Map.get\<close>, \<^verbatim>\<open>Map.set\<close> (an existing key keeps its place, a new one goes last) and
  \<^verbatim>\<open>Map.delete\<close>.
\<close>

definition Map_get :: "(string \<times> nat) list \<Rightarrow> string \<Rightarrow> nat option" where
  "Map_get m k = map_of m k"

definition Map_set :: "string \<Rightarrow> nat \<Rightarrow> (string \<times> nat) list \<Rightarrow> (string \<times> nat) list" where
  "Map_set k a m = AList.update k a m"

definition Map_delete :: "string \<Rightarrow> (string \<times> nat) list \<Rightarrow> (string \<times> nat) list" where
  "Map_delete k m = AList.delete k m"

definition clear :: "SmartQueue \<Rightarrow> SmartQueue" where
  "clear s = s\<lparr>queue := []\<rparr>"

definition isOverheated :: "SmartQueue \<Rightarrow> bool" where
  "isOverheated s = js_greater (overheat s) (Fin (now s))"

definition totalLength :: "SmartQueue \<Rightarrow> nat" where
  "totalLength s = fold (\<lambda>(k, a) length_acc. length_acc + length (data (heap s a))) (queue s) 0"

definition remove :: "string \<Rightarrow> SmartQueue \<Rightarrow> SmartQueue" where
  "remove k s = s\<lparr>queue := Map_delete k (queue s)\<rparr>"

definition isCool :: "QueueItem \<Rightarrow> rat \<Rightarrow> bool" where
  "isCool q comparedTo = js_le (cooldown q) (Fin comparedTo)"

subsection \<open>The rule registry\<close>

text \<open>
  \<^verbatim>\<open>getRule\<close> returns what it found (\<open>None\<close> for undefined) and the instance with its rules
  updated. The test \<^verbatim>\<open>if (this.params.rules[name])\<close> succeeds for every value other than
  undefined, also for one inherited from \<^verbatim>\<open>Object.prototype\<close>.
\<close>

definition getRule :: "string \<Rightarrow> SmartQueue \<Rightarrow> rule_value option \<times> SmartQueue" where
  "getRule name s =
     (case rules_at (rules (params s)) name of
        Some r \<Rightarrow> (Some r, s)
      | None \<Rightarrow>
          (let s' = s\<lparr>params := (params s)
                      \<lparr>rules := (rules (params s))
                         (name := rules_at (rules (params s)) (default_rule (params s)))\<rparr>\<rparr>
           in (rules_at (rules (params s')) name, s')))"

text \<open>
  The object \<^verbatim>\<open>rules\<close> of an instance is shared: with every instance built without rules
  of its own when it is \<^verbatim>\<open>defaultParams.rules\<close>, otherwise with every instance that the
  caller built from the same object. \<open>other_getRule d name\<close> is what \<^verbatim>\<open>getRule(name)\<close>, run
  by such an instance whose \<^verbatim>\<open>default.rule\<close> is \<open>d\<close>, does to the shared object.
\<close>

definition other_getRule :: "string \<Rightarrow> string \<Rightarrow> SmartQueue \<Rightarrow> SmartQueue" where
  "other_getRule d name s =
     (case rules_at (rules (params s)) name of
        Some r \<Rightarrow> s
      | None \<Rightarrow>
          s\<lparr>params := (params s)
              \<lparr>rules := (rules (params s))(name := rules_at (rules (params s)) d)\<rparr>\<rparr>)"

subsection \<open>Selection\<close>

text \<open>
  The body of the \<^verbatim>\<open>forEach\<close> in \<^verbatim>\<open>findMostImportant\<close>, folded over the store in its
  order. The accumulator is \<^verbatim>\<open>maximumPriority\<close>, \<^verbatim>\<open>selectedQueue\<close> and
  \<^verbatim>\<open>minimalCooldown\<close>. Reading \<^verbatim>\<open>queue.rule.priority\<close> of a partition whose rule is
  undefined throws a TypeError: the result is \<open>None\<close>.
\<close>

fun forEach_queue ::
  "(nat \<Rightarrow> QueueItem) \<Rightarrow> rat \<Rightarrow> (string \<times> nat) list \<Rightarrow> jsnum \<times> nat option \<times> jsnum
     \<Rightarrow> (jsnum \<times> nat option \<times> jsnum) option" where
  "forEach_queue h n [] acc = Some acc"
| "forEach_queue h n ((k, a) # rest) (maximumPriority, selectedQueue, minimalCooldown) =
     (case rule (h a) of
        None \<Rightarrow> None
      | Some r \<Rightarrow>
          forEach_queue h n rest
            (if js_less (priority_of_rule r) maximumPriority \<and> data (h a) \<noteq> [] \<and> isCool (h a) n
             then (priority_of_rule r, Some a,
                   if js_less (cooldown (h a)) minimalCooldown \<and> js_greater (cooldown (h a)) (Fin n)
                   then cooldown (h a) else minimalCooldown)
             else (maximumPriority, selectedQueue,
                   if js_less (cooldown (h a)) minimalCooldown \<and> js_greater (cooldown (h a)) (Fin n)
                   then cooldown (h a) else minimalCooldown)))"

text \<open>
  \<^verbatim>\<open>findMostImportant\<close> up to its first suspension. With a pinned partition it returns it at
  once. Otherwise it scans; awaiting \<^verbatim>\<open>delay(t)\<close> leaves the loop asleep until the timeout
  of \<open>t\<close> milliseconds can run (the event \<open>LoopWakes\<close> then runs \<^verbatim>\<open>findMostImportant()\<close>
  again); returning hands the selection to the continuation of \<^verbatim>\<open>shift\<close>. \<open>after_scan\<close> is
  the part after the first \<^verbatim>\<open>if\<close>. A TypeError rejects the promise, which \<^verbatim>\<open>execute\<close>
  awaits outside its \<^verbatim>\<open>try\<close>: the chain of calls ends there.
\<close>

definition await_delay :: "jsnum \<Rightarrow> SmartQueue \<Rightarrow> SmartQueue" where
  "await_delay time s = s\<lparr>loop := Sleeping (now s + timeout_after time)\<rparr>"

definition after_scan :: "nat option \<Rightarrow> SmartQueue \<Rightarrow> SmartQueue" where
  "after_scan selectedQueue s =
     (if isOverheated s \<and> \<not> ignoreOverallOverheat (params s)
      then await_delay (js_sub (overheat s) (Fin (now s))) s
      else if selectedQueue = None \<and> totalLength s = 0
      then s\<lparr>pending := False, loop := NoLoop\<rparr>
      else s\<lparr>loop := ShiftPending selectedQueue\<rparr>)"

definition findMostImportant :: "nat option \<Rightarrow> SmartQueue \<Rightarrow> SmartQueue" where
  "findMostImportant bestQueue s =
     (case bestQueue of
        Some q \<Rightarrow> s\<lparr>loop := ShiftPending (Some q)\<rparr>
      | None \<Rightarrow>
          (case forEach_queue (heap s) (now s) (queue s) (PosInf, None, PosInf) of
             None \<Rightarrow> s\<lparr>loop := NoLoop\<rparr>
           | Some (maximumPriority, selectedQueue, minimalCooldown) \<Rightarrow>
               (let defactoMinimalCooldown = js_sub minimalCooldown (Fin (now s))
                in if selectedQueue = None \<and> js_greater defactoMinimalCooldown (Fin 0)
                      \<and> minimalCooldown \<noteq> PosInf
                   then await_delay defactoMinimalCooldown s
                   else after_scan selectedQueue s)))"

text \<open>\<^verbatim>\<open>execute\<close> up to \<^verbatim>\<open>await this.shift(queue)\<close>.\<close>

definition execute :: "nat option \<Rightarrow> SmartQueue \<Rightarrow> SmartQueue" where
  "execute q s = findMostImportant q (s\<lparr>pending := True\<rparr>)"
subsection \<open>Submission\<close>

text \<open>
  \<^verbatim>\<open>createQueue\<close> returns the partition (its reference). A new partition object is allocated
  at a fresh address, which is also its id.
\<close>

definition createQueue :: "string \<Rightarrow> nat \<Rightarrow> nat \<Rightarrow> string \<Rightarrow> SmartQueue \<Rightarrow> nat \<times> SmartQueue" where
  "createQueue queueName req cb rule_n s =
     (let (a, s1) =
        (case Map_get (queue s) queueName of
           Some a \<Rightarrow> (a, s)
         | None \<Rightarrow>
             (let queueId = nextId s;
                  (r, s') = getRule rule_n (s\<lparr>nextId := Suc (nextId s)\<rparr>)
              in (queueId,
                  s'\<lparr>heap := (heap s')
                     (queueId := \<lparr>id_q = queueId, cooldown = Fin (now s), key = queueName,
                                 data = [], rule = r, ruleName = rule_n\<rparr>)\<rparr>)));
          queueItemId = nextId s1;
          s2 = s1\<lparr>nextId := Suc (nextId s1),
                  heap := (heap s1)
                    (a := (heap s1 a)
                       \<lparr>data := data (heap s1 a) @
                          [\<lparr>id_d = queueItemId, request = req, callback = cb\<rparr>]\<rparr>)\<rparr>
      in (a, s2\<lparr>queue := Map_set queueName a (queue s2)\<rparr>))"

definition add :: "nat \<Rightarrow> nat \<Rightarrow> string \<Rightarrow> string \<Rightarrow> SmartQueue \<Rightarrow> SmartQueue" where
  "add req cb k rule_n s =
     (let (q, s1) = createQueue k req cb rule_n s
      in if \<not> pending s1 then execute (Some q) s1 else s1)"

text \<open>
  \<^verbatim>\<open>request\<close>: the arguments default to \<^verbatim>\<open>default.key\<close> and \<^verbatim>\<open>default.rule\<close>; the callback
  it builds gets a fresh handle. The callback itself is \<open>callback_fn\<close>: it rejects the promise
  when its first argument is truthy and fulfils it with the second otherwise.
\<close>

definition request_fn :: "nat \<Rightarrow> string option \<Rightarrow> string option \<Rightarrow> SmartQueue \<Rightarrow> SmartQueue" where
  "request_fn fn k rule_n s =
     add fn (nextId s)
       (case k of None \<Rightarrow> default_key (params s) | Some k' \<Rightarrow> k')
       (case rule_n of None \<Rightarrow> default_rule (params s) | Some r \<Rightarrow> r)
       (s\<lparr>nextId := Suc (nextId s)\<rparr>)"

definition callback_fn :: "jsval \<Rightarrow> jsval \<Rightarrow> settlement" where
  "callback_fn error dat = (if truthy error then Rejected error else Fulfilled dat)"

definition invoke_callback :: "QueueItemData \<Rightarrow> jsval \<Rightarrow> jsval \<Rightarrow> SmartQueue \<Rightarrow> SmartQueue" where
  "invoke_callback it error dat s = s\<lparr>settled := settled s @ [(callback it, callback_fn error dat)]\<rparr>"

subsection \<open>Dispatch\<close>

text \<open>
  \<^verbatim>\<open>setCooldown\<close>; \<open>None\<close> is the TypeError of reading \<^verbatim>\<open>ruleData.limit\<close> when the lookup
  of the partition's rule name gives undefined.
\<close>

definition setCooldown :: "nat \<Rightarrow> SmartQueue \<Rightarrow> SmartQueue option" where
  "setCooldown q s =
     (case rules_at (rules (params s)) (ruleName (heap s q)) of
        None \<Rightarrow> None
      | Some ruleData \<Rightarrow>
          (let defactoCooldown = js_div (js_mul (limit_of ruleData) (Fin 1000)) (rate_of ruleData);
               cooldown' = js_add (Fin (now s)) defactoCooldown
           in Some (setTimeout (CooldownTimeout q cooldown') defactoCooldown
                      (s\<lparr>heap := (heap s)(q := (heap s q)\<lparr>cooldown := cooldown'\<rparr>)\<rparr>))))"

text \<open>
  The continuation of \<^verbatim>\<open>shift\<close> after \<^verbatim>\<open>await this.findMostImportant(queue)\<close>, followed by
  \<^verbatim>\<open>execute\<close> up to the call of the operation. Returning null, or the TypeError, ends the chain
  of calls: \<open>pending\<close> stays as it is.
\<close>

definition shift :: "nat option \<Rightarrow> SmartQueue \<Rightarrow> SmartQueue" where
  "shift currentQueue s =
     (case currentQueue of
        None \<Rightarrow> s\<lparr>loop := NoLoop\<rparr>
      | Some q \<Rightarrow>
          (case data (heap s q) of
             [] \<Rightarrow> s\<lparr>loop := NoLoop\<rparr>
           | it # rest \<Rightarrow>
               (case setCooldown q s of
                  None \<Rightarrow> s\<lparr>loop := NoLoop\<rparr>
                | Some s1 \<Rightarrow>
                    s1\<lparr>heap := (heap s1)(q := (heap s1 q)\<lparr>data := rest\<rparr>),
                       dispatched := dispatched s1 @
                         [\<lparr>d_time = now s, d_queue = q, d_key = key (heap s q),
                           d_cooldown = cooldown (heap s q), d_item = it\<rparr>],
                       loop := Invoking \<lparr>nextItem = \<lparr>queue_s = q, item = it\<rparr>,
                                        retryState = False, retryTimer = Fin 0\<rparr>\<rparr>)))"

definition heat :: "SmartQueue \<Rightarrow> SmartQueue" where
  "heat s =
     (if ignoreOverallOverheat (params s) then s
      else (let lastOverheat = js_add (Fin (now s)) (heatPart s)
            in setTimeout (HeatTimeout lastOverheat) (heatPart s) (s\<lparr>overheat := lastOverheat\<rparr>)))"

text \<open>\<^verbatim>\<open>retryFn\<close>: \<^verbatim>\<open>delay || this.params.retryTime\<close> takes the delay unless it is falsy.\<close>

definition retryFn :: "jsnum option \<Rightarrow> SmartQueue \<Rightarrow> Execution \<Rightarrow> Execution" where
  "retryFn dl s x =
     x\<lparr>retryState := True,
       retryTimer := (case dl of
                        None \<Rightarrow> retryTime (params s)
                      | Some d \<Rightarrow> if js_truthy d then d else retryTime (params s))\<rparr>"

text \<open>\<^verbatim>\<open>addRetry\<close> up to its \<^verbatim>\<open>await\<close>; the rest is the timer callback \<open>RetryDelay\<close>.\<close>

definition addRetry :: "ShiftItemStructure \<Rightarrow> jsnum \<Rightarrow> SmartQueue \<Rightarrow> SmartQueue" where
  "addRetry it dl s = setTimeout (RetryDelay it) (js_mul dl (Fin 1000)) s"

text \<open>
  \<^verbatim>\<open>execute\<close> after the operation has been called. If the call threw, the \<^verbatim>\<open>catch\<close> block runs
  and neither \<^verbatim>\<open>heat\<close> nor the next \<^verbatim>\<open>execute\<close> is reached. Otherwise \<^verbatim>\<open>heat()\<close> and
  \<^verbatim>\<open>execute()\<close> run and the execution awaits the promise.
\<close>

definition execute_threw :: "Execution \<Rightarrow> jsval \<Rightarrow> SmartQueue \<Rightarrow> SmartQueue" where
  "execute_threw x e s = invoke_callback (item (nextItem x)) e Undefined (s\<lparr>loop := NoLoop\<rparr>)"

definition execute_called :: "Execution \<Rightarrow> SmartQueue \<Rightarrow> SmartQueue" where
  "execute_called x s = execute None (heat (s\<lparr>running := running s @ [x]\<rparr>))"

text \<open>The outcome of the awaited promise, and \<^verbatim>\<open>execute\<close> after \<^verbatim>\<open>await requestPromise\<close>.\<close>

datatype outcome = Resolves jsval | Rejects jsval

definition execute_settled :: "Execution \<Rightarrow> outcome \<Rightarrow> SmartQueue \<Rightarrow> SmartQueue" where
  "execute_settled x res s =
     (case res of
        Resolves v \<Rightarrow>
          (if retryState x then addRetry (nextItem x) (retryTimer x) s
           else invoke_callback (item (nextItem x)) Null v s)
      | Rejects e \<Rightarrow> invoke_callback (item (nextItem x)) e Undefined s)"

subsection \<open>Timer callbacks\<close>

definition run_timer :: "timer_callback \<Rightarrow> SmartQueue \<Rightarrow> SmartQueue" where
  "run_timer cb s =
     (case cb of
        CooldownTimeout q cooldown' \<Rightarrow>
          (let s1 = s\<lparr>heap := (heap s)
                      (q := (heap s q)
                         \<lparr>cooldown := js_add (Fin (now s))
                            (js_max (js_sub (cooldown (heap s q)) cooldown') (Fin 0))\<rparr>)\<rparr>
           in if data (heap s1 q) = [] then remove (key (heap s1 q)) s1 else s1)
      | HeatTimeout lastOverheat \<Rightarrow>
          s\<lparr>overheat := js_add (Fin (now s)) (js_max (js_sub (overheat s) lastOverheat) (Fin 0))\<rparr>
      | RetryDelay it \<Rightarrow>
          add (request (item it)) (callback (item it))
            (key (heap s (queue_s it))) (ruleName (heap s (queue_s it))) s)"
section \<open>The event loop\<close>

text \<open>
  What happens to an instance, one event at a time:
  \<^item> \<open>Tick d\<close>: time passes (\<^verbatim>\<open>Date.now()\<close> never goes back);
  \<^item> \<open>Request fn k r\<close>: the caller runs \<^verbatim>\<open>request(fn, k, r)\<close>, \<open>None\<close> for an omitted argument;
  \<^item> \<open>Clear\<close>: the caller runs \<^verbatim>\<open>clear()\<close>;
  \<^item> \<open>RetryNow d\<close>, \<open>RetryLater n d\<close>: the operation being called, or the one of the \<open>n\<close>-th
    awaited execution, calls its \<^verbatim>\<open>retryFn(d)\<close>;
  \<^item> \<open>ShiftResumes\<close>: the microtask that continues \<^verbatim>\<open>shift\<close> runs, and calls the operation;
  \<^item> \<open>OpThrows e\<close>, \<open>OpReturns\<close>: the call of the operation throws, or returns its promise;
  \<^item> \<open>OpSettles n res\<close>: the promise of the \<open>n\<close>-th awaited execution settles and the
    execution continues;
  \<^item> \<open>TimerFires n\<close>: the \<open>n\<close>-th pending timeout runs, not before it is due;
  \<^item> \<open>LoopWakes\<close>: the \<^verbatim>\<open>delay\<close> that \<^verbatim>\<open>findMostImportant\<close> awaits is over;
  \<^item> \<open>OtherResolves d name\<close>: another instance sharing the object \<^verbatim>\<open>rules\<close> resolves a name.

  The caller's synchronous code (requests, clear, retry signals) may run at any point, also
  inside an operation. The continuation of an awaited execution is a microtask: it may run
  at any point too, in particular between the pop and the call of the operation (\<open>Invoking\<close>
  covers both; a settlement while the operation is being called gives the state that the
  same settlement gives just before the call). A timeout is a macrotask: it cannot run while
  the operation is being called, nor while the continuation of \<^verbatim>\<open>shift\<close> is a queued
  microtask. An event that cannot happen in the current state leaves it unchanged.
\<close>

datatype event =
  Tick rat
| Request nat "string option" "string option"
| Clear
| RetryNow "jsnum option"
| RetryLater nat "jsnum option"
| ShiftResumes
| OpThrows jsval
| OpReturns
| OpSettles nat outcome
| TimerFires nat
| LoopWakes
| OtherResolves string string

fun macrotask_ok :: "loop_state \<Rightarrow> bool" where
  "macrotask_ok (ShiftPending q) = False"
| "macrotask_ok (Invoking x) = False"
| "macrotask_ok l = True"

definition remove_nth :: "nat \<Rightarrow> 'a list \<Rightarrow> 'a list" where
  "remove_nth n xs = take n xs @ drop (Suc n) xs"

fun step :: "event \<Rightarrow> SmartQueue \<Rightarrow> SmartQueue" where
  "step (Tick d) s = (if 0 \<le> d then s\<lparr>now := now s + d\<rparr> else s)"
| "step (Request fn k r) s = request_fn fn k r s"
| "step Clear s = clear s"
| "step (RetryNow dl) s =
     (case loop s of Invoking x \<Rightarrow> s\<lparr>loop := Invoking (retryFn dl s x)\<rparr> | _ \<Rightarrow> s)"
| "step (RetryLater n dl) s =
     (if n < length (running s)
      then s\<lparr>running := (running s)[n := retryFn dl s (running s ! n)]\<rparr> else s)"
| "step ShiftResumes s = (case loop s of ShiftPending q \<Rightarrow> shift q s | _ \<Rightarrow> s)"
| "step (OpThrows e) s = (case loop s of Invoking x \<Rightarrow> execute_threw x e s | _ \<Rightarrow> s)"
| "step OpReturns s = (case loop s of Invoking x \<Rightarrow> execute_called x s | _ \<Rightarrow> s)"
| "step (OpSettles n res) s =
     (if n < length (running s)
      then execute_settled (running s ! n) res (s\<lparr>running := remove_nth n (running s)\<rparr>)
      else s)"
| "step (TimerFires n) s =
     (if n < length (timers s) \<and> due (fst (timers s ! n)) \<le> now s \<and> macrotask_ok (loop s)
      then run_timer (snd (timers s ! n)) (s\<lparr>timers := remove_nth n (timers s)\<rparr>)
      else s)"
| "step LoopWakes s =
     (case loop s of
        Sleeping d \<Rightarrow> if d \<le> now s then findMostImportant None s else s
      | _ \<Rightarrow> s)"
| "step (OtherResolves d name) s = other_getRule d name s"

fun run :: "event list \<Rightarrow> SmartQueue \<Rightarrow> SmartQueue" where
  "run [] s = s"
| "run (e # es) s = run es (step e s)"

text \<open>The states an instance can be in: constructed, then any events.\<close>

inductive reachable :: "SmartQueue \<Rightarrow> bool" where
  reachable_new: "reachable (constructor_at dr p t0)"
| reachable_step: "reachable s \<Longrightarrow> reachable (step e s)"

section \<open>Notions used to state the properties\<close>

text \<open>Two configurations used in examples: the defaults, and one that gives its own rules.\<close>

definition cfg_default :: PartialConfig where
  "cfg_default = \<lparr>p_rules = None, p_default = None, p_overall = None, p_retryTime = None,
     p_ignoreOverallOverheat = None\<rparr>"

definition cfg_q1 :: PartialConfig where
  "cfg_q1 = \<lparr>p_rules = Some [''q1'' \<mapsto> RuleObj \<lparr>rate = Fin 10, limit = Fin 1, priority = Fin 1\<rparr>],
     p_default = None, p_overall = None, p_retryTime = None, p_ignoreOverallOverheat = None\<rparr>"

text \<open>A configuration whose only rule has the priority \<^verbatim>\<open>Infinity\<close>.\<close>

definition cfg_inf :: PartialConfig where
  "cfg_inf = \<lparr>p_rules = Some [''common'' \<mapsto> RuleObj \<lparr>rate = Fin 10, limit = Fin 1, priority = PosInf\<rparr>],
     p_default = None, p_overall = None, p_retryTime = None, p_ignoreOverallOverheat = None\<rparr>"

text \<open>
  The configuration of the test of the overall heat limit: the overheat is not ignored and
  the overall rule allows 10 dispatches per second.
\<close>

definition cfg_heat :: PartialConfig where
  "cfg_heat = \<lparr>p_rules = None, p_default = None,
     p_overall = Some \<lparr>rate = Fin 10, limit = Fin 1, priority = PosInf\<rparr>,
     p_retryTime = None, p_ignoreOverallOverheat = Some False\<rparr>"

text \<open>
  Who holds a completion callback. \<open>queued_cbs s a\<close>: the items queued in the partition
  object \<open>a\<close>. \<open>in_hand s\<close>: the execution whose operation is being called, the executions
  awaiting their operation, and the pending retry timeouts. \<open>stored_cbs s\<close>: the items of
  the partitions in the store. \<open>selected_cb s\<close>: the first item of the partition that the
  continuation of \<^verbatim>\<open>shift\<close> is about to pop. \<open>live s\<close>: all callbacks that may still
  be invoked.
\<close>

definition queued_cbs :: "SmartQueue \<Rightarrow> nat \<Rightarrow> nat set" where
  "queued_cbs s a = callback ` set (data (heap s a))"

definition cb_of :: "Execution \<Rightarrow> nat" where
  "cb_of x = callback (item (nextItem x))"

fun timer_cbs :: "((rat \<times> jsnum) \<times> timer_callback) list \<Rightarrow> nat list" where
  "timer_cbs [] = []"
| "timer_cbs ((dl, RetryDelay it) # ts) = callback (item it) # timer_cbs ts"
| "timer_cbs ((dl, cb) # ts) = timer_cbs ts"

fun invoking_cbs :: "loop_state \<Rightarrow> nat list" where
  "invoking_cbs (Invoking x) = [cb_of x]"
| "invoking_cbs l = []"

definition in_hand :: "SmartQueue \<Rightarrow> nat list" where
  "in_hand s = invoking_cbs (loop s) @ map cb_of (running s) @ timer_cbs (timers s)"

definition stored_cbs :: "SmartQueue \<Rightarrow> nat set" where
  "stored_cbs s = (\<Union>(k, a) \<in> set (queue s). queued_cbs s a)"

definition selected_cb :: "SmartQueue \<Rightarrow> nat set" where
  "selected_cb s =
     (case loop s of
        ShiftPending (Some q) \<Rightarrow> (case data (heap s q) of [] \<Rightarrow> {} | it # rest \<Rightarrow> {callback it})
      | _ \<Rightarrow> {})"

definition live :: "SmartQueue \<Rightarrow> nat set" where
  "live s = stored_cbs s \<union> selected_cb s \<union> set (in_hand s)"

text \<open>
  The invariant: a callback has one holder. No two queued items, in the same or in different
  partition objects, share a callback; no two holders in hand do; no callback is both queued
  and in hand; and every callback held is below the counter.
\<close>

definition inv_unique :: "SmartQueue \<Rightarrow> bool" where
  "inv_unique s =
     ((\<forall>a. distinct (map callback (data (heap s a)))) \<and>
      (\<forall>a b. a \<noteq> b \<longrightarrow> queued_cbs s a \<inter> queued_cbs s b = {}) \<and>
      distinct (in_hand s) \<and>
      (\<forall>a. set (in_hand s) \<inter> queued_cbs s a = {}) \<and>
      (\<forall>a. \<forall>c \<in> queued_cbs s a. c < nextId s) \<and>
      (\<forall>c \<in> set (in_hand s). c < nextId s))"

text \<open>The invocations of the callback \<open>c\<close> recorded so far.\<close>

definition invocations :: "nat \<Rightarrow> SmartQueue \<Rightarrow> (nat \<times> settlement) list" where
  "invocations c s = filter (\<lambda>e. fst e = c) (settled s)"

text \<open>
  The state of the test of \<^verbatim>\<open>clear\<close>: two requests for the keys \<open>1\<close> and \<open>2\<close> under the
  rule \<open>q1\<close>, submitted in one go.
\<close>

definition state_before_clear :: SmartQueue where
  "state_before_clear =
     run [Request 1 (Some ''1'') (Some ''q1''), Request 2 (Some ''2'') (Some ''q1'')]
       (constructor cfg_q1 0)"


text \<open>
  \<open>same_config s s'\<close>: from \<open>s\<close> to \<open>s'\<close> the configuration changed at most in its rules.
\<close>

definition same_config :: "SmartQueue \<Rightarrow> SmartQueue \<Rightarrow> bool" where
  "same_config s s' =
     (default_rule (params s') = default_rule (params s) \<and>
      default_key (params s') = default_key (params s) \<and>
      overall (params s') = overall (params s) \<and>
      retryTime (params s') = retryTime (params s) \<and>
      ignoreOverallOverheat (params s') = ignoreOverallOverheat (params s) \<and>
      heatPart s' = heatPart s)"

text \<open>
  The invariant of the overheat bookkeeping: \<open>heatPart\<close> is the overall window, and while
  the overheat is ignored no heat timeout is pending and the overheat time has passed.
\<close>

definition inv_heat :: "SmartQueue \<Rightarrow> bool" where
  "inv_heat s =
     (heatPart s = js_div (js_mul (limit (overall (params s))) (Fin 1000)) (rate (overall (params s))) \<and>
      (ignoreOverallOverheat (params s) \<longrightarrow>
         (\<exists>t. overheat s = Fin t \<and> t \<le> now s) \<and>
         (\<forall>(dl, cb) \<in> set (timers s). \<forall>l. cb \<noteq> HeatTimeout l)))"

text \<open>
  The store is well formed: no key twice, every partition stored under its own key, at an
  address that has been allocated.
\<close>

definition store_ok :: "SmartQueue \<Rightarrow> bool" where
  "store_ok s =
     (distinct (map fst (queue s)) \<and>
      (\<forall>(k, a) \<in> set (queue s). key (heap s a) = k \<and> a < nextId s))"

text \<open>
  The invariant behind FIFO order. Item ids come from the counter, so a smaller id means an
  earlier submission. In every partition object the items are in the order of their ids; an
  object that is no longer the one stored under its key holds only items older than those of
  the stored one; what has been popped under a key is older than everything queued in the
  partition stored under that key, and in the partition about to be popped when it has that
  key; and the pops under one key so far happened in the order of the ids.
\<close>

definition older :: "QueueItemData \<Rightarrow> QueueItemData \<Rightarrow> bool" where
  "older x y = (id_d x < id_d y)"

definition fifo :: "Dispatch \<Rightarrow> Dispatch \<Rightarrow> bool" where
  "fifo d d' = (d_key d = d_key d' \<longrightarrow> older (d_item d) (d_item d'))"

definition inv_fifo :: "SmartQueue \<Rightarrow> bool" where
  "inv_fifo s =
     ((\<forall>a. \<forall>it \<in> set (data (heap s a)). id_d it < nextId s) \<and>
      (\<forall>d \<in> set (dispatched s). id_d (d_item d) < nextId s) \<and>
      (\<forall>a. sorted_wrt older (data (heap s a))) \<and>
      (\<forall>a b. Map_get (queue s) (key (heap s a)) = Some b \<and> a \<noteq> b \<longrightarrow>
         (\<forall>i \<in> set (data (heap s a)). \<forall>j \<in> set (data (heap s b)). older i j)) \<and>
      (\<forall>d \<in> set (dispatched s). \<forall>b. Map_get (queue s) (d_key d) = Some b \<longrightarrow>
         (\<forall>j \<in> set (data (heap s b)). older (d_item d) j)) \<and>
      (\<forall>q. loop s = ShiftPending (Some q) \<longrightarrow>
         (\<forall>d \<in> set (dispatched s). d_key d = key (heap s q) \<longrightarrow>
            (\<forall>j \<in> set (data (heap s q)). older (d_item d) j))) \<and>
      sorted_wrt fifo (dispatched s))"

text \<open>The pops recorded so far of the item whose callback is \<open>c\<close>.\<close>

definition pops :: "nat \<Rightarrow> SmartQueue \<Rightarrow> Dispatch list" where
  "pops c s = filter (\<lambda>d. callback (d_item d) = c) (dispatched s)"

text \<open>A partition is eligible at time \<open>n\<close> when it is non-empty and cool.\<close>

definition eligible :: "(nat \<Rightarrow> QueueItem) \<Rightarrow> rat \<Rightarrow> nat \<Rightarrow> bool" where
  "eligible h n a = (data (h a) \<noteq> [] \<and> isCool (h a) n)"

text \<open>
  The cooldown window of a rule value as \<^verbatim>\<open>setCooldown\<close> computes it, \<open>(limit * 1000) / rate\<close>,
  and as the specification writes it, \<open>(limit / rate) * 1000\<close>.
\<close>

definition defactoCooldown_of :: "rule_value \<Rightarrow> jsnum" where
  "defactoCooldown_of r = js_div (js_mul (limit_of r) (Fin 1000)) (rate_of r)"

definition window_of :: "rule_value \<Rightarrow> jsnum" where
  "window_of r = js_mul (js_div (limit_of r) (rate_of r)) (Fin 1000)"


text \<open>
  \<open>state_lol\<close>: the instance was given the rules \<^verbatim>\<open>{q1: ...}\<close> only, and a request names the
  unknown rule \<^verbatim>\<open>lol\<close>.
\<close>

definition state_lol :: SmartQueue where
  "state_lol = run [Request 1 (Some ''1'') (Some ''lol'')] (constructor cfg_q1 0)"

text \<open>
  \<open>state_inf\<close>: two requests for the keys \<open>a\<close> and \<open>b\<close> under a rule of priority
  \<^verbatim>\<open>Infinity\<close>; the first was popped at once, its operation returned, and 100 ms later the
  cooldown timeout of its partition has run.
\<close>

definition state_inf :: SmartQueue where
  "state_inf =
     run [Request 1 (Some ''a'') None, Request 2 (Some ''b'') None, ShiftResumes, OpReturns,
          Tick 100, TimerFires 0] (constructor cfg_inf 0)"

text \<open>
  \<open>state_nan\<close>: under the default configuration a request for the key \<open>k\<close> names the rule
  \<^verbatim>\<open>constructor\<close>; it was popped, its operation returned and resolved, and a second request
  for \<open>k\<close> has been submitted in the same millisecond.
\<close>

definition state_nan :: SmartQueue where
  "state_nan =
     run [Request 1 (Some ''k'') (Some ''constructor''), ShiftResumes, OpReturns,
          OpSettles 0 (Resolves (Val 7)), Request 2 (Some ''k'') None]
       (constructor cfg_default 0)"

text \<open>
  A configuration whose rule has a window of 3000000 seconds, and \<open>state_popped_once cfg\<close>:
  two requests for the default key, the first of them popped.
\<close>

definition cfg_slow :: PartialConfig where
  "cfg_slow =
     \<lparr>p_rules = Some [''common'' \<mapsto> RuleObj \<lparr>rate = Fin 1, limit = Fin 3000000, priority = Fin 1\<rparr>],
      p_default = None, p_overall = None, p_retryTime = None, p_ignoreOverallOverheat = None\<rparr>"

definition state_popped_once :: "PartialConfig \<Rightarrow> SmartQueue" where
  "state_popped_once cfg =
     run [Request 1 None None, Request 2 None None, ShiftResumes] (constructor cfg 0)"

text \<open>
  A configuration with two rules, of windows 100 ms and 101 ms, and \<open>state_rekeyed\<close>:
  requests for the keys \<open>k\<close> (rule \<open>common\<close>) and \<open>j\<close> (rule \<open>slow\<close>) are popped at
  time 0 and a second request for \<open>k\<close> is queued; at time 100 the loop wakes up and pops
  it; then the cooldown timeout of the first pop runs and, the partition being empty,
  removes the key \<open>k\<close>; a third request for \<open>k\<close> creates a new partition, which is
  popped when the loop wakes up at time 101.
\<close>

definition cfg_two :: PartialConfig where
  "cfg_two =
     \<lparr>p_rules = Some [''common'' \<mapsto> RuleObj \<lparr>rate = Fin 10, limit = Fin 1, priority = Fin 1\<rparr>,
                      ''slow'' \<mapsto> RuleObj \<lparr>rate = Fin 1000, limit = Fin 101, priority = Fin 1\<rparr>],
      p_default = None, p_overall = None, p_retryTime = None, p_ignoreOverallOverheat = None\<rparr>"

definition state_rekeyed :: SmartQueue where
  "state_rekeyed =
     run [Request 1 (Some ''k'') None, Request 2 (Some ''j'') (Some ''slow''), ShiftResumes,
          OpReturns, ShiftResumes, OpReturns, Tick 1, Request 3 (Some ''k'') None, Tick 99,
          LoopWakes, ShiftResumes, OpReturns, TimerFires 0, Request 4 (Some ''k'') None, Tick 1,
          LoopWakes, ShiftResumes] (constructor cfg_two 0)"

text \<open>
  \<open>state_second_queued\<close>: under the rule \<open>q1\<close> (a window of 100 ms) a first request for the
  key \<open>k\<close> was popped at time 0; at time 50 the caller ran \<^verbatim>\<open>clear()\<close> and submitted a second
  request for \<open>k\<close>; it is now time 100. \<open>state_lost\<close>: then the cooldown timeout of the first
  partition ran, the loop woke up, and a third request for \<open>k\<close> was submitted and popped.
\<close>

definition state_second_queued :: SmartQueue where
  "state_second_queued =
     run [Request 1 (Some ''k'') (Some ''q1''), ShiftResumes, OpReturns, Tick 50, Clear,
          Request 2 (Some ''k'') (Some ''q1''), Tick 50] (constructor cfg_q1 0)"

definition state_lost :: SmartQueue where
  "state_lost =
     run [TimerFires 0, LoopWakes, Request 3 (Some ''k'') (Some ''q1''), ShiftResumes]
       state_second_queued"

section \<open>Basic facts about the methods\<close>

lemma getRule_frame:
  "queue (snd (getRule n s)) = queue s" "heap (snd (getRule n s)) = heap s"
  "now (snd (getRule n s)) = now s" "pending (snd (getRule n s)) = pending s"
  "loop (snd (getRule n s)) = loop s" "timers (snd (getRule n s)) = timers s"
  "running (snd (getRule n s)) = running s" "nextId (snd (getRule n s)) = nextId s"
  "dispatched (snd (getRule n s)) = dispatched s" "settled (snd (getRule n s)) = settled s"
  "overheat (snd (getRule n s)) = overheat s" "heatPart (snd (getRule n s)) = heatPart s"
  by (simp_all add: getRule_def Let_def split: option.splits)

lemma getRule_params:
  "default_rule (params (snd (getRule n s))) = default_rule (params s)"
  "default_key (params (snd (getRule n s))) = default_key (params s)"
  "overall (params (snd (getRule n s))) = overall (params s)"
  "retryTime (params (snd (getRule n s))) = retryTime (params s)"
  "ignoreOverallOverheat (params (snd (getRule n s))) = ignoreOverallOverheat (params s)"
  by (simp_all add: getRule_def Let_def split: option.splits)

lemma rules_at_own: "rs n = Some v \<Longrightarrow> rules_at rs n = Some v"
  by (simp add: rules_at_def)

lemma rules_at_update:
  "rules_at rs n = None \<Longrightarrow> rules_at (rs(n := v)) m = (if m = n then v else rules_at rs m)"
  by (auto simp: rules_at_def split: option.splits if_splits)

lemma findMostImportant_frame:
  "queue (findMostImportant b s) = queue s" "heap (findMostImportant b s) = heap s"
  "now (findMostImportant b s) = now s" "params (findMostImportant b s) = params s"
  "timers (findMostImportant b s) = timers s"
  "running (findMostImportant b s) = running s" "nextId (findMostImportant b s) = nextId s"
  "dispatched (findMostImportant b s) = dispatched s"
  "settled (findMostImportant b s) = settled s"
  "overheat (findMostImportant b s) = overheat s" "heatPart (findMostImportant b s) = heatPart s"
  by (simp_all add: findMostImportant_def after_scan_def await_delay_def Let_def
      split: option.splits prod.splits)

lemma execute_frame:
  "queue (execute b s) = queue s" "heap (execute b s) = heap s"
  "now (execute b s) = now s" "params (execute b s) = params s"
  "timers (execute b s) = timers s"
  "running (execute b s) = running s" "nextId (execute b s) = nextId s"
  "dispatched (execute b s) = dispatched s" "settled (execute b s) = settled s"
  "overheat (execute b s) = overheat s" "heatPart (execute b s) = heatPart s"
  by (simp_all add: execute_def findMostImportant_frame)

lemma createQueue_frame:
  "now (snd (createQueue k rq cb rn s)) = now s"
  "pending (snd (createQueue k rq cb rn s)) = pending s"
  "loop (snd (createQueue k rq cb rn s)) = loop s"
  "timers (snd (createQueue k rq cb rn s)) = timers s"
  "running (snd (createQueue k rq cb rn s)) = running s"
  "dispatched (snd (createQueue k rq cb rn s)) = dispatched s"
  "settled (snd (createQueue k rq cb rn s)) = settled s"
  "overheat (snd (createQueue k rq cb rn s)) = overheat s"
  "heatPart (snd (createQueue k rq cb rn s)) = heatPart s"
  by (simp_all add: createQueue_def Let_def case_prod_beta getRule_frame split: option.splits)

lemma Map_get_set: "Map_get (Map_set k a m) k' = (if k' = k then Some a else Map_get m k')"
  by (simp add: Map_get_def Map_set_def update_conv')

lemma createQueue_existing:
  "Map_get (queue s) k = Some a \<Longrightarrow>
   createQueue k rq cb rn s =
     (a, s\<lparr>nextId := Suc (nextId s),
           heap := (heap s)(a := (heap s a)
             \<lparr>data := data (heap s a) @ [\<lparr>id_d = nextId s, request = rq, callback = cb\<rparr>]\<rparr>),
           queue := Map_set k a (queue s)\<rparr>)"
  by (simp add: createQueue_def Let_def)

lemma createQueue_new:
  "Map_get (queue s) k = None \<Longrightarrow>
   createQueue k rq cb rn s =
     (nextId s,
      (snd (getRule rn s))\<lparr>nextId := Suc (Suc (nextId s)),
           heap := (heap s)(nextId s :=
             \<lparr>id_q = nextId s, cooldown = Fin (now s), key = k,
              data = [\<lparr>id_d = Suc (nextId s), request = rq, callback = cb\<rparr>],
              rule = fst (getRule rn s), ruleName = rn\<rparr>),
           queue := Map_set k (nextId s) (queue s)\<rparr>)"
  by (simp add: createQueue_def Let_def case_prod_beta getRule_def split: option.splits)

lemma add_heap_queue:
  "heap (add rq cb k rn s) = heap (snd (createQueue k rq cb rn s))"
  "queue (add rq cb k rn s) = queue (snd (createQueue k rq cb rn s))"
  by (simp_all add: add_def case_prod_beta execute_frame)

lemmas run_defs =
  constructor_def constructor_at_def assign_params_def defaultParams_def Let_def request_fn_def
  add_def createQueue_def Map_get_def Map_set_def Map_delete_def getRule_def other_getRule_def
  rules_at_def Object_prototype_def execute_def findMostImportant_def after_scan_def
  await_delay_def isOverheated_def totalLength_def isCool_def shift_def setCooldown_def
  setTimeout_def timeout_after_def due_def heat_def retryFn_def addRetry_def execute_threw_def
  execute_called_def execute_settled_def invoke_callback_def callback_fn_def run_timer_def
  remove_def clear_def remove_nth_def js_le_def js_greater_def js_sub_def js_max_def
  js_truthy_def infinity_of_def

lemma createQueue_config: "same_config s (snd (createQueue k rq cb rn s))"
  by (simp add: createQueue_def Let_def case_prod_beta same_config_def
      getRule_params getRule_frame split: option.splits)

lemma add_config: "same_config s (add rq cb k rn s)"
  using createQueue_config [of s k rq cb rn]
  by (simp add: add_def case_prod_beta same_config_def execute_frame)

lemma shift_params: "params (shift q s) = params s" "heatPart (shift q s) = heatPart s"
  by (simp_all add: shift_def setCooldown_def setTimeout_def Let_def
      split: option.splits list.splits)

lemma run_timer_config: "same_config s (run_timer cb s)"
proof (cases cb)
  case (RetryDelay it)
  then show ?thesis by (simp add: run_timer_def add_config)
qed (simp_all add: run_timer_def Let_def remove_def same_config_def)

lemma step_config: "same_config s (step e s)"
proof (cases e)
  case (Request fn k r)
  then show ?thesis
    using add_config [of "s\<lparr>nextId := Suc (nextId s)\<rparr>"]
    by (simp add: request_fn_def same_config_def)
next
  case (TimerFires n)
  then show ?thesis
    using run_timer_config [of "s\<lparr>timers := remove_nth n (timers s)\<rparr>"]
    by (simp add: same_config_def)
qed (simp_all add: same_config_def clear_def shift_params execute_threw_def invoke_callback_def
    execute_called_def execute_frame heat_def execute_settled_def addRetry_def setTimeout_def
    Let_def findMostImportant_frame other_getRule_def
    split: loop_state.splits outcome.splits option.splits)

section \<open>Facts shared by the properties\<close>

lemma reachable_run: "reachable s \<Longrightarrow> reachable (run es s)"
  by (induction es arbitrary: s) (simp_all add: reachable_step)

lemma set_remove_nth: "set (remove_nth n xs) \<subseteq> set xs"
  using set_take_subset [of n xs] set_drop_subset [of "Suc n" xs]
  by (auto simp: remove_nth_def)

lemma createQueue_nextId: "nextId s < nextId (snd (createQueue k rq cb rn s))"
  by (cases "Map_get (queue s) k") (simp_all add: createQueue_new createQueue_existing)

lemma heat_frame:
  "queue (heat s) = queue s" "heap (heat s) = heap s" "now (heat s) = now s"
  "params (heat s) = params s" "pending (heat s) = pending s" "loop (heat s) = loop s"
  "running (heat s) = running s" "nextId (heat s) = nextId s"
  "dispatched (heat s) = dispatched s" "settled (heat s) = settled s"
  "heatPart (heat s) = heatPart s"
  by (simp_all add: heat_def Let_def setTimeout_def)

lemma other_getRule_frame:
  "queue (other_getRule d n s) = queue s" "heap (other_getRule d n s) = heap s"
  "now (other_getRule d n s) = now s" "pending (other_getRule d n s) = pending s"
  "loop (other_getRule d n s) = loop s" "timers (other_getRule d n s) = timers s"
  "running (other_getRule d n s) = running s" "nextId (other_getRule d n s) = nextId s"
  "dispatched (other_getRule d n s) = dispatched s" "settled (other_getRule d n s) = settled s"
  "overheat (other_getRule d n s) = overheat s" "heatPart (other_getRule d n s) = heatPart s"
  by (simp_all add: other_getRule_def split: option.splits)

text \<open>A partition that the scan selects is in the store.\<close>

lemma forEach_queue_in_store:
  "forEach_queue h n st (mp, sel, mc) = Some (mp', Some q, mc') \<Longrightarrow>
     sel = Some q \<or> (\<exists>k. (k, q) \<in> set st)"
proof (induction st arbitrary: mp sel mc)
  case Nil
  then show ?case by simp
next
  case (Cons x st)
  obtain k a where x: "x = (k, a)" by (cases x)
  from Cons.prems x obtain r where r: "rule (h a) = Some r"
    by (auto split: option.splits)
  from Cons.prems x r obtain mp1 sel1 mc1 where
    run: "forEach_queue h n st (mp1, sel1, mc1) = Some (mp', Some q, mc')"
    and sel1: "sel1 = sel \<or> sel1 = Some a"
    by (auto split: if_splits)
  from Cons.IH [OF run] sel1 x show ?case by auto
qed

lemma scan_selected:
  assumes "loop (findMostImportant None s) = ShiftPending (Some q)"
  shows "\<exists>k. (k, q) \<in> set (queue s)"
proof -
  from assms obtain mp' mc' where
    scan: "forEach_queue (heap s) (now s) (queue s) (PosInf, None, PosInf) = Some (mp', Some q, mc')"
    by (auto simp: findMostImportant_def after_scan_def await_delay_def Let_def
        split: option.splits if_splits)
  from forEach_queue_in_store [OF scan] show ?thesis by simp
qed

text \<open>
  When the chain of \<^verbatim>\<open>execute\<close> calls has ended while \<open>pending\<close> is true, no event starts
  it again: \<^verbatim>\<open>add\<close> calls \<^verbatim>\<open>execute\<close> only when \<open>pending\<close> is false. Nothing is popped
  any more.
\<close>

lemma add_pending:
  "pending s \<Longrightarrow>
     pending (add rq cb k rn s) \<and> loop (add rq cb k rn s) = loop s \<and>
     dispatched (add rq cb k rn s) = dispatched s"
  by (simp add: add_def case_prod_beta createQueue_frame)

lemma dead_loop_step:
  assumes "pending s" and "loop s = NoLoop"
  shows "pending (step e s) \<and> loop (step e s) = NoLoop \<and> dispatched (step e s) = dispatched s"
proof (cases e)
  case (Request fn k r)
  then show ?thesis
    using assms add_pending [of "s\<lparr>nextId := Suc (nextId s)\<rparr>"]
    by (simp add: request_fn_def)
next
  case (OpSettles n res)
  then show ?thesis using assms
    by (simp add: execute_settled_def invoke_callback_def addRetry_def setTimeout_def
        split: outcome.splits)
next
  case (TimerFires n)
  show ?thesis
  proof (cases "snd (timers s ! n)")
    case (RetryDelay it)
    then show ?thesis
      using assms TimerFires add_pending [of "s\<lparr>timers := remove_nth n (timers s)\<rparr>"]
      by (simp add: run_timer_def)
  qed (use assms TimerFires in \<open>simp_all add: run_timer_def Let_def remove_def\<close>)
qed (use assms in \<open>simp_all add: clear_def other_getRule_frame other_getRule_def
      split: option.splits\<close>)

lemma dead_loop:
  assumes "pending s" and "loop s = NoLoop"
  shows "dispatched (run es s) = dispatched s"
  using assms
proof (induction es arbitrary: s)
  case Nil
  show ?case by simp
next
  case (Cons e es)
  from dead_loop_step [OF Cons.prems, of e] Cons.IH [of "step e s"] show ?case by simp
qed

section \<open>Settlement of an executed item\<close>





lemma floor_100_3: "\<lfloor>100 / 3 :: rat\<rfloor> = 33"
  by (simp add: floor_eq_iff)









section \<open>The retry signal\<close>

text \<open>
  C10. Calling the retry signal with delay 0 is the same as calling it without an argument,
  for the operation being called and for one that is awaited: the delay of the retry becomes
  the configured \<open>retryTime\<close> seconds, and this is the delay that the retry timeout gets when
  the operation resolves. The default \<open>retryTime\<close> is 300, and a timeout with a delay of
  300 * 1000 ms is due 300000 ms after it was set.
\<close>

theorem retry_zero_is_retryTime:
  "retryFn (Some (Fin 0)) s x = retryFn None s x
   \<and> retryTimer (retryFn (Some (Fin 0)) s x) = retryTime (params s)
   \<and> step (RetryNow (Some (Fin 0))) s = step (RetryNow None) s
   \<and> step (RetryLater n (Some (Fin 0))) s = step (RetryLater n None) s
   \<and> execute_settled (retryFn (Some (Fin 0)) s x) (Resolves v) s' =
       s'\<lparr>timers := timers s' @ [((now s', js_mul (retryTime (params s)) (Fin 1000)), RetryDelay (nextItem x))]\<rparr>
   \<and> retryTime (params (constructor p t0)) =
       (case p_retryTime p of None \<Rightarrow> Fin 300 | Some t \<Rightarrow> t)
   \<and> due (t, js_mul (Fin 300) (Fin 1000)) = t + 300000"
proof -
  have same: "retryFn (Some (Fin 0)) s1 x1 = retryFn None s1 x1" for s1 x1
    by (simp add: retryFn_def js_truthy_def)
  have timer: "retryTimer (retryFn None s x) = retryTime (params s)"
    and state: "retryState (retryFn None s x)" and it: "nextItem (retryFn None s x) = nextItem x"
    by (simp_all add: retryFn_def)
  have settled: "execute_settled (retryFn None s x) (Resolves v) s' =
      s'\<lparr>timers := timers s' @ [((now s', js_mul (retryTime (params s)) (Fin 1000)), RetryDelay (nextItem x))]\<rparr>"
    by (simp add: execute_settled_def addRetry_def setTimeout_def timer state it)
  have dflt: "retryTime (params (constructor p t0)) =
      (case p_retryTime p of None \<Rightarrow> Fin 300 | Some t \<Rightarrow> t)"
    by (simp add: constructor_def constructor_at_def Let_def assign_params_def defaultParams_def
        split: option.splits)
  have due: "due (t, js_mul (Fin 300) (Fin 1000)) = t + 300000"
    by (simp add: due_def timeout_after_def)
  show ?thesis
    by (simp only: same timer settled dflt due step.simps simp_thms)
qed

section \<open>The rule registry\<close>

text \<open>
  What \<^verbatim>\<open>getRule\<close> does when the lookup of the name gives undefined and the lookup of the
  default rule name gives \<open>d\<close>: it returns \<open>d\<close> and registers it under the name, leaving the
  other names alone; from then on the name resolves to \<open>d\<close> with no further change.
\<close>

lemma getRule_registers_alias:
  assumes "rules_at (rules (params s)) name = None"
    and "rules_at (rules (params s)) (default_rule (params s)) = Some d"
  shows "fst (getRule name s) = Some d"
    and "rules (params (snd (getRule name s))) name = Some d"
    and "m \<noteq> name \<Longrightarrow> rules (params (snd (getRule name s))) m = rules (params s) m"
    and "getRule name (snd (getRule name s)) = (Some d, snd (getRule name s))"
  using assms by (simp_all add: getRule_def Let_def rules_at_update rules_at_own)

text \<open>
  The object \<^verbatim>\<open>defaultParams.rules\<close> is shared: a name that one instance built without
  rules registers is registered for an instance built later, and a name that another such
  instance registers appears in this one.
\<close>

lemma default_rules_are_shared:
  "rules (params (run [Request 1 None (Some ''lol'')] (constructor cfg_default 0))) ''lol''
     = Some (RuleObj \<lparr>rate = Fin 30, limit = Fin 1, priority = Fin 3\<rparr>)
   \<and> rules (params (constructor_at
        (rules (params (run [Request 1 None (Some ''lol'')] (constructor cfg_default 0))))
        cfg_default 5)) ''lol''
     = Some (RuleObj \<lparr>rate = Fin 30, limit = Fin 1, priority = Fin 3\<rparr>)
   \<and> rules (params (run [OtherResolves ''common'' ''lol''] (constructor cfg_default 0))) ''lol''
     = Some (RuleObj \<lparr>rate = Fin 30, limit = Fin 1, priority = Fin 3\<rparr>)"
  by (simp add: run_defs cfg_default_def)

text \<open>
  C6 does not hold of the code, in two ways.

  With the configuration \<^verbatim>\<open>{rules: {q1: ...}}\<close> the shallow merge of the constructor drops
  the rule \<^verbatim>\<open>common\<close> while \<^verbatim>\<open>default.rule\<close> is still \<^verbatim>\<open>'common'\<close>. Resolving the unknown
  name \<^verbatim>\<open>'lol'\<close> then returns undefined, and so does every later lookup. A request under
  that name gets a partition without a rule; when the loop comes to pop it, \<^verbatim>\<open>setCooldown\<close>
  throws a TypeError and the loop ends with \<open>pending\<close> still true: whatever happens
  afterwards, nothing is dispatched, neither this request nor a later one under a
  registered rule.

  With the default configuration, where the default rule is registered, resolving the name
  \<^verbatim>\<open>'constructor'\<close> returns the function that \<^verbatim>\<open>Object.prototype\<close> has under that name, not
  the default rule, and registers nothing.
\<close>

theorem getRule_misses_default:
  "rules_at (rules (params (constructor cfg_q1 0))) (default_rule (params (constructor cfg_q1 0)))
     = None
   \<and> fst (getRule ''lol'' (constructor cfg_q1 0)) = None
   \<and> rules_at (rules (params (snd (getRule ''lol'' (constructor cfg_q1 0))))) ''lol'' = None
   \<and> rule (heap state_lol 1) = None
   \<and> data (heap state_lol 1) = [\<lparr>id_d = 2, request = 1, callback = 0\<rparr>]
   \<and> loop (step ShiftResumes state_lol) = NoLoop
   \<and> pending (step ShiftResumes state_lol) = True
   \<and> (\<forall>es. dispatched (run es (step ShiftResumes state_lol)) = [])
   \<and> rules_at (rules (params (constructor cfg_default 0)))
        (default_rule (params (constructor cfg_default 0)))
     = Some (RuleObj \<lparr>rate = Fin 30, limit = Fin 1, priority = Fin 3\<rparr>)
   \<and> fst (getRule ''constructor'' (constructor cfg_default 0)) = Some (Inherited ''constructor'')
   \<and> snd (getRule ''constructor'' (constructor cfg_default 0)) = constructor cfg_default 0
   \<and> rules (params (constructor cfg_default 0)) ''constructor'' = None"
proof -
  have l: "loop (step ShiftResumes state_lol) = NoLoop"
    and p: "pending (step ShiftResumes state_lol)"
    and d: "dispatched (step ShiftResumes state_lol) = []"
    by (simp_all add: state_lol_def run_defs cfg_q1_def)
  have never: "dispatched (run es (step ShiftResumes state_lol)) = []" for es
    using dead_loop [OF p l, of es] d by simp
  have rest: "rules_at (rules (params (constructor cfg_q1 0)))
        (default_rule (params (constructor cfg_q1 0))) = None"
    "fst (getRule ''lol'' (constructor cfg_q1 0)) = None"
    "rules_at (rules (params (snd (getRule ''lol'' (constructor cfg_q1 0))))) ''lol'' = None"
    "rule (heap state_lol 1) = None"
    "data (heap state_lol 1) = [\<lparr>id_d = 2, request = 1, callback = 0\<rparr>]"
    "rules_at (rules (params (constructor cfg_default 0)))
        (default_rule (params (constructor cfg_default 0)))
     = Some (RuleObj \<lparr>rate = Fin 30, limit = Fin 1, priority = Fin 3\<rparr>)"
    "fst (getRule ''constructor'' (constructor cfg_default 0)) = Some (Inherited ''constructor'')"
    "snd (getRule ''constructor'' (constructor cfg_default 0)) = constructor cfg_default 0"
    "rules (params (constructor cfg_default 0)) ''constructor'' = None"
    by (simp_all add: state_lol_def run_defs cfg_q1_def cfg_default_def)
  show ?thesis using l p never rest by simp
qed

section \<open>Retry resubmission\<close>




section \<open>Selection by priority\<close>

text \<open>
  C3 does not hold of the code for a priority that is not below \<^verbatim>\<open>Infinity\<close>: the scan
  starts with \<^verbatim>\<open>maximumPriority = Infinity\<close> and compares with \<^verbatim>\<open><\<close>. In \<open>state_inf\<close> the
  partition \<open>a\<close>, whose rule has the priority \<^verbatim>\<open>Infinity\<close>, has been dispatched on the path
  with a pinned partition. The partition \<open>b\<close> under the same rule is now the only one in the
  store, non-empty and cool, so it has the smallest priority among the eligible partitions;
  yet when the loop wakes up the selector returns null. \<^verbatim>\<open>shift\<close> then returns null and
  the chain of \<^verbatim>\<open>execute\<close> calls ends with \<open>pending\<close> still true: whatever happens
  afterwards, nothing is dispatched any more, neither the item of \<open>b\<close> nor a request
  submitted later.
\<close>

theorem infinite_priority_starves:
  "map (\<lambda>d. (d_time d, d_key d)) (dispatched state_inf) = [(0, ''a'')]
   \<and> rule (heap state_inf 1) = Some (RuleObj \<lparr>rate = Fin 10, limit = Fin 1, priority = PosInf\<rparr>)
   \<and> queue state_inf = [(''b'', 4)]
   \<and> rule (heap state_inf 4) = Some (RuleObj \<lparr>rate = Fin 10, limit = Fin 1, priority = PosInf\<rparr>)
   \<and> eligible (heap state_inf) (now state_inf) 4
   \<and> loop state_inf = Sleeping 100 \<and> now state_inf = 100
   \<and> loop (step LoopWakes state_inf) = ShiftPending None
   \<and> loop (run [LoopWakes, ShiftResumes] state_inf) = NoLoop
   \<and> pending (run [LoopWakes, ShiftResumes] state_inf) = True
   \<and> data (heap (run [LoopWakes, ShiftResumes] state_inf) 4)
        = [\<lparr>id_d = 5, request = 2, callback = 3\<rparr>]
   \<and> (\<forall>es. dispatched (run es (run [LoopWakes, ShiftResumes] state_inf))
          = dispatched state_inf)"
proof -
  have a: "map (\<lambda>d. (d_time d, d_key d)) (dispatched state_inf) = [(0, ''a'')]"
    "rule (heap state_inf 1) = Some (RuleObj \<lparr>rate = Fin 10, limit = Fin 1, priority = PosInf\<rparr>)"
    "queue state_inf = [(''b'', 4)]"
    "rule (heap state_inf 4) = Some (RuleObj \<lparr>rate = Fin 10, limit = Fin 1, priority = PosInf\<rparr>)"
    "eligible (heap state_inf) (now state_inf) 4"
    "loop state_inf = Sleeping 100" "now state_inf = 100"
    "loop (step LoopWakes state_inf) = ShiftPending None"
    by (simp_all add: state_inf_def run_defs cfg_inf_def eligible_def)
  have b: "loop (run [LoopWakes, ShiftResumes] state_inf) = NoLoop"
    "pending (run [LoopWakes, ShiftResumes] state_inf)"
    "data (heap (run [LoopWakes, ShiftResumes] state_inf) 4)
        = [\<lparr>id_d = 5, request = 2, callback = 3\<rparr>]"
    "dispatched (run [LoopWakes, ShiftResumes] state_inf) = dispatched state_inf"
    by (simp_all add: state_inf_def run_defs cfg_inf_def)
  have "dispatched (run es (run [LoopWakes, ShiftResumes] state_inf)) = dispatched state_inf"
    for es
    using dead_loop [OF b(2) b(1), of es] b(4) by simp
  then show ?thesis using a b by simp
qed

section \<open>The cooldown of a popped partition\<close>

text \<open>
  C4 does not hold of the code. In \<open>state_nan\<close> the first request named the rule
  \<^verbatim>\<open>constructor\<close>, which \<^verbatim>\<open>getRule\<close> resolved to a function inherited from
  \<^verbatim>\<open>Object.prototype\<close>; \<^verbatim>\<open>setCooldown\<close> read \<^verbatim>\<open>limit\<close> and \<^verbatim>\<open>rate\<close> of that function and
  set the cooldown of the partition to \<^verbatim>\<open>NaN\<close>. The scan after the pop did not count the
  partition as cooling and set \<open>pending\<close> to false. The second request for the same key,
  submitted before the timeout of the partition has run, therefore starts the loop with the
  partition pinned, and the item is popped although the cooldown of the partition is not
  \<^verbatim>\<open><=\<close> the current time.
\<close>

theorem inherited_rule_pops_uncool:
  "rule (heap state_nan 1) = Some (Inherited ''constructor'')
   \<and> cooldown (heap state_nan 1) = NaN
   \<and> loop state_nan = ShiftPending (Some 1)
   \<and> now state_nan = 0
   \<and> isCool (heap state_nan 1) (now state_nan) = False
   \<and> map (\<lambda>d. (d_time d, d_queue d, d_cooldown d, request (d_item d)))
        (dispatched (step ShiftResumes state_nan)) = [(0, 1, Fin 0, 1), (0, 1, NaN, 2)]
   \<and> js_le NaN (Fin 0) = False"
  by (simp add: state_nan_def run_defs cfg_default_def)

section \<open>The cooldown set by a pop, and the spacing of pops\<close>

lemma js_window_eq: "js_div (js_mul l (Fin 1000)) r = js_mul (js_div l r) (Fin 1000)"
  by (cases l; cases r) (auto simp: infinity_of_def)

lemma window_of_eq: "defactoCooldown_of r = window_of r"
  by (simp add: defactoCooldown_of_def window_of_def js_window_eq)

text \<open>
  What holds of the first part of C1: when the continuation of \<^verbatim>\<open>shift\<close> pops an item from
  the partition \<open>q\<close>, it has set the cooldown of \<open>q\<close> to the current time plus the window
  \<open>(limit / rate) * 1000\<close> of the value that the lookup of the partition's rule name gives,
  and a timeout with that delay.
\<close>

lemma shift_sets_cooldown:
  assumes "loop s = ShiftPending (Some q)" and "data (heap s q) = it # rest"
    and "rules_at (rules (params s)) (ruleName (heap s q)) = Some r"
  shows "cooldown (heap (step ShiftResumes s) q) = js_add (Fin (now s)) (window_of r)"
    and "dispatched (step ShiftResumes s) = dispatched s @
           [\<lparr>d_time = now s, d_queue = q, d_key = key (heap s q),
             d_cooldown = cooldown (heap s q), d_item = it\<rparr>]"
    and "timers (step ShiftResumes s) = timers s @
           [((now s, window_of r), CooldownTimeout q (js_add (Fin (now s)) (window_of r)))]"
  using assms window_of_eq [of r]
  by (simp_all add: shift_def setCooldown_def setTimeout_def Let_def defactoCooldown_of_def)

text \<open>
  C1 does not hold of the code in its second part: two successive pops from one partition
  can be closer than the window. The timeout that \<^verbatim>\<open>setCooldown\<close> sets replaces the
  cooldown by \<^verbatim>\<open>Date.now() + Math.max(queue.cooldown - cooldown, 0)\<close> when it runs, which is
  the time at which it runs; and Node.js runs a timeout after its delay cut to whole
  milliseconds, or after 1 ms when the delay exceeds \<^verbatim>\<open>2^31 - 1\<close>.

  Under the default rule (rate 30, limit 1) the window is 100/3 ms. The pop at time 0 sets
  the cooldown of the partition to 100/3 and a timeout that is due at 33. At time 33 the
  timeout lowers the cooldown to 33, the loop wakes up, and the second item is popped from
  the same partition, 33 ms after the first. Under a rule with a window of 3000000000 ms the
  timeout is due after 1 ms, and the second pop follows the first by 1 ms.

  The same timeout removes the entry of the store by key. In \<open>state_rekeyed\<close>, under a
  window of 100 ms, the timeout of the pop at time 0 runs after the pop at time 100 and
  removes the key; the next request for the key gets a new partition with a fresh cooldown
  and is popped at time 101, 1 ms after the previous pop under that key.
\<close>

theorem early_timeout_lowers_cooldown:
  "rules (params (state_popped_once cfg_default)) (ruleName (heap (state_popped_once cfg_default) 1))
     = Some (RuleObj \<lparr>rate = Fin 30, limit = Fin 1, priority = Fin 3\<rparr>)
   \<and> js_mul (js_div (Fin 1) (Fin 30)) (Fin 1000) = Fin (100 / 3)
   \<and> cooldown (heap (state_popped_once cfg_default) 1) = Fin (0 + 100 / 3)
   \<and> timers (state_popped_once cfg_default) = [((0, Fin (100 / 3)), CooldownTimeout 1 (Fin (100 / 3)))]
   \<and> due (0, Fin (100 / 3)) = 33
   \<and> map (\<lambda>d. (d_time d, d_queue d, d_key d))
        (dispatched (run [OpReturns, Tick 33, TimerFires 0, LoopWakes, ShiftResumes]
           (state_popped_once cfg_default))) = [(0, 1, ''common''), (33, 1, ''common'')]
   \<and> (33 :: rat) < 0 + 100 / 3
   \<and> cooldown (heap (state_popped_once cfg_slow) 1) = Fin (0 + 3000000000)
   \<and> timers (state_popped_once cfg_slow)
        = [((0, Fin 3000000000), CooldownTimeout 1 (Fin 3000000000))]
   \<and> due (0, Fin 3000000000) = 1
   \<and> map (\<lambda>d. (d_time d, d_queue d, d_key d))
        (dispatched (run [OpReturns, Tick 1, TimerFires 0, LoopWakes, ShiftResumes]
           (state_popped_once cfg_slow))) = [(0, 1, ''common''), (1, 1, ''common'')]
   \<and> (1 :: rat) < 0 + 3000000000
   \<and> map (\<lambda>d. (d_time d, d_queue d, d_key d, request (d_item d))) (dispatched state_rekeyed)
        = [(0, 1, ''k'', 1), (0, 4, ''j'', 2), (100, 1, ''k'', 3), (101, 9, ''k'', 4)]
   \<and> ruleName (heap state_rekeyed 1) = ''common'' \<and> ruleName (heap state_rekeyed 9) = ''common''
   \<and> rules (params state_rekeyed) ''common''
        = Some (RuleObj \<lparr>rate = Fin 10, limit = Fin 1, priority = Fin 1\<rparr>)
   \<and> js_mul (js_div (Fin 1) (Fin 10)) (Fin 1000) = Fin 100
   \<and> (101 :: rat) < 100 + 100"
  by (simp add: state_popped_once_def state_rekeyed_def run_defs cfg_default_def cfg_slow_def
      cfg_two_def floor_100_3)

section \<open>The global overheat\<close>

lemma add_heat_frame:
  "overheat (add rq cb k rn s) = overheat s" "now (add rq cb k rn s) = now s"
  "timers (add rq cb k rn s) = timers s"
  by (simp_all add: add_def case_prod_beta execute_frame createQueue_frame)

lemma same_config_heat:
  "same_config s s' \<Longrightarrow>
     heatPart s' = heatPart s \<and> overall (params s') = overall (params s) \<and>
     ignoreOverallOverheat (params s') = ignoreOverallOverheat (params s)"
  by (simp add: same_config_def)

lemma step_inv_heat:
  assumes "inv_heat s"
  shows "inv_heat (step e s)"
proof -
  have cfg: "heatPart (step e s) = heatPart s \<and> overall (params (step e s)) = overall (params s) \<and>
     ignoreOverallOverheat (params (step e s)) = ignoreOverallOverheat (params s)"
    using step_config [of s e] by (rule same_config_heat)
  have "(\<exists>t. overheat (step e s) = Fin t \<and> t \<le> now (step e s)) \<and>
      (\<forall>(dl, cb) \<in> set (timers (step e s)). \<forall>l. cb \<noteq> HeatTimeout l)"
    if ig: "ignoreOverallOverheat (params s)"
  proof -
    have o: "\<exists>t. overheat s = Fin t \<and> t \<le> now s" and t: "\<forall>(dl, cb) \<in> set (timers s). \<forall>l. cb \<noteq> HeatTimeout l"
      using assms ig by (auto simp: inv_heat_def)
    show ?thesis
    proof (cases e)
      case (Tick d)
      then show ?thesis using o t by auto
    next
      case (Request fn k r)
      then show ?thesis using o t by (simp add: request_fn_def add_heat_frame)
    next
      case (TimerFires n)
      have t': "\<forall>(dl, cb) \<in> set (remove_nth n (timers s)). \<forall>l. cb \<noteq> HeatTimeout l"
        using t set_remove_nth [of n "timers s"] by blast
      show ?thesis
      proof (cases "n < length (timers s) \<and> due (fst (timers s ! n)) \<le> now s \<and> macrotask_ok (loop s)")
        case True
        then have "(fst (timers s ! n), snd (timers s ! n)) \<in> set (timers s)" by simp
        then have nh: "\<forall>l. snd (timers s ! n) \<noteq> HeatTimeout l" using t by blast
        show ?thesis using True TimerFires o t' nh
          by (cases "snd (timers s ! n)")
             (simp_all add: run_timer_def Let_def remove_def add_heat_frame)
      next
        case False
        then show ?thesis using TimerFires o t by auto
      qed
    next
      case OpReturns
      then show ?thesis using o t ig
        by (cases "loop s") (simp_all add: execute_called_def execute_frame heat_def)
    next
      case (OpSettles n res)
      then show ?thesis using o t
        by (auto simp: execute_settled_def invoke_callback_def addRetry_def setTimeout_def split: outcome.splits)
    qed (use o t in \<open>auto simp: clear_def shift_def setCooldown_def setTimeout_def Let_def execute_threw_def
          invoke_callback_def findMostImportant_frame other_getRule_frame
          split: loop_state.splits option.splits list.splits\<close>)
  qed
  then show ?thesis using assms cfg by (simp add: inv_heat_def)
qed

lemma constructor_inv_heat: "inv_heat (constructor_at dr p t0)"
  by (simp add: inv_heat_def constructor_at_def Let_def)

lemma reachable_inv_heat: "reachable s \<Longrightarrow> inv_heat s"
  by (induction rule: reachable.induct) (simp_all add: constructor_inv_heat step_inv_heat)

text \<open>What holds of C8 on the path where the call of the operation returns.\<close>

lemma heat_on_return:
  assumes "reachable s" and "loop s = Invoking x"
  shows "overheat (step OpReturns s) =
      (if ignoreOverallOverheat (params s) then overheat s
       else js_add (Fin (now s))
              (js_div (js_mul (limit (overall (params s))) (Fin 1000)) (rate (overall (params s)))))"
  using reachable_inv_heat [OF assms(1)] assms(2)
  by (simp add: execute_called_def execute_frame heat_def setTimeout_def Let_def inv_heat_def)

lemma ignored_never_overheated:
  assumes "reachable s" and "ignoreOverallOverheat (params s)"
  shows "\<not> isOverheated s"
  using reachable_inv_heat [OF assms(1)] assms(2)
  by (auto simp: inv_heat_def isOverheated_def js_greater_def)

text \<open>
  C8 does not hold for a dispatch whose operation throws when it is called. With the
  overheat not ignored and an overall window of 100 ms, a request is submitted at time 0 and
  popped at time 5; its operation throws synchronously. The item has been dispatched, but
  \<^verbatim>\<open>heat()\<close> was skipped: the overheat time is still that of the construction and the
  instance is not overheated, where C8 has it at 105 (as on the path where the call returns).
  The next \<^verbatim>\<open>execute()\<close> was skipped as well: no loop is left and \<open>pending\<close> stays true.
\<close>

theorem throwing_operation_skips_heat:
  "ignoreOverallOverheat (params (constructor cfg_heat 0)) = False
   \<and> map (\<lambda>d. (d_time d, id_d (d_item d)))
        (dispatched (run [Request 1 None None, Tick 5, ShiftResumes, OpThrows (Error 1)]
           (constructor cfg_heat 0))) = [(5, 2)]
   \<and> now (run [Request 1 None None, Tick 5, ShiftResumes, OpThrows (Error 1)]
           (constructor cfg_heat 0)) = 5
   \<and> overheat (run [Request 1 None None, Tick 5, ShiftResumes, OpThrows (Error 1)]
           (constructor cfg_heat 0)) = Fin 0
   \<and> isOverheated (run [Request 1 None None, Tick 5, ShiftResumes, OpThrows (Error 1)]
           (constructor cfg_heat 0)) = False
   \<and> overheat (run [Request 1 None None, Tick 5, ShiftResumes, OpReturns]
           (constructor cfg_heat 0)) = Fin 105
   \<and> loop (run [Request 1 None None, Tick 5, ShiftResumes, OpThrows (Error 1)]
           (constructor cfg_heat 0)) = NoLoop
   \<and> pending (run [Request 1 None None, Tick 5, ShiftResumes, OpThrows (Error 1)]
           (constructor cfg_heat 0)) = True"
  by (simp add: run_defs cfg_heat_def)
section \<open>What \<^verbatim>\<open>clear\<close> drops\<close>

subsection \<open>A callback has one holder\<close>

lemma remove_nth_split:
  "n < length xs \<Longrightarrow> xs = take n xs @ xs ! n # drop (Suc n) xs"
  by (rule id_take_nth_drop)

lemma remove_nth_distinct_map:
  assumes "n < length xs" and "distinct (map f xs)"
  shows "distinct (map f (remove_nth n xs)) \<and> f (xs ! n) \<notin> f ` set (remove_nth n xs)"
proof -
  have "distinct (map f (take n xs @ xs ! n # drop (Suc n) xs))"
    using assms remove_nth_split [OF assms(1)] by simp
  then show ?thesis by (auto simp: remove_nth_def)
qed

lemma timer_cbs_append: "timer_cbs (xs @ ys) = timer_cbs xs @ timer_cbs ys"
  by (induction xs rule: timer_cbs.induct) simp_all

lemma timer_cbs_split:
  assumes "n < length ts"
  shows "timer_cbs ts =
     timer_cbs (take n ts) @ timer_cbs [ts ! n] @ timer_cbs (drop (Suc n) ts)"
proof -
  have "timer_cbs ts = timer_cbs (take n ts @ [ts ! n] @ drop (Suc n) ts)"
    using remove_nth_split [OF assms] by simp
  then show ?thesis by (simp only: timer_cbs_append)
qed

lemma timer_cbs_remove_nth:
  "timer_cbs (remove_nth n ts) = timer_cbs (take n ts) @ timer_cbs (drop (Suc n) ts)"
  by (simp add: remove_nth_def timer_cbs_append)

lemma timer_cbs_fired_other:
  assumes "n < length ts" and "\<forall>it. snd (ts ! n) \<noteq> RetryDelay it"
  shows "timer_cbs (remove_nth n ts) = timer_cbs ts"
proof -
  obtain dl cb where e: "ts ! n = (dl, cb)" by (cases "ts ! n")
  then have "timer_cbs [ts ! n] = []" using assms(2) by (cases cb) auto
  then show ?thesis using timer_cbs_split [OF assms(1)] by (simp add: timer_cbs_remove_nth)
qed

lemma timer_cbs_fired_retry:
  assumes "n < length ts" and "snd (ts ! n) = RetryDelay it" and "distinct (timer_cbs ts)"
  shows "distinct (timer_cbs (remove_nth n ts)) \<and>
     callback (item it) \<notin> set (timer_cbs (remove_nth n ts)) \<and>
     set (timer_cbs ts) = insert (callback (item it)) (set (timer_cbs (remove_nth n ts)))"
proof -
  obtain dl where e: "ts ! n = (dl, RetryDelay it)" using assms(2) by (cases "ts ! n") auto
  have "timer_cbs ts =
     timer_cbs (take n ts) @ [callback (item it)] @ timer_cbs (drop (Suc n) ts)"
    using timer_cbs_split [OF assms(1)] e by simp
  then show ?thesis using assms(3) by (auto simp: timer_cbs_remove_nth)
qed

lemma cb_of_retryFn: "cb_of (retryFn d s x) = cb_of x"
  by (simp add: cb_of_def retryFn_def)

lemma map_cb_of_update:
  "n < length xs \<Longrightarrow> map cb_of (xs[n := retryFn d s (xs ! n)]) = map cb_of xs"
  by (simp add: map_update cb_of_retryFn list_update_same_conv)


lemma inv_uniqueD:
  assumes "inv_unique s"
  shows "distinct (map callback (data (heap s a)))"
    and "a \<noteq> b \<Longrightarrow> c \<in> queued_cbs s a \<Longrightarrow> c \<notin> queued_cbs s b"
    and "distinct (in_hand s)"
    and "c \<in> set (in_hand s) \<Longrightarrow> c \<notin> queued_cbs s a"
    and "c \<in> queued_cbs s a \<Longrightarrow> c < nextId s"
    and "c \<in> set (in_hand s) \<Longrightarrow> c < nextId s"
  using assms unfolding inv_unique_def by blast+

lemma inv_uniqueI:
  assumes "\<And>a. distinct (map callback (data (heap s a)))"
    and "\<And>a b c. a \<noteq> b \<Longrightarrow> c \<in> queued_cbs s a \<Longrightarrow> c \<notin> queued_cbs s b"
    and "distinct (in_hand s)"
    and "\<And>a c. c \<in> set (in_hand s) \<Longrightarrow> c \<notin> queued_cbs s a"
    and "\<And>a c. c \<in> queued_cbs s a \<Longrightarrow> c < nextId s"
    and "\<And>c. c \<in> set (in_hand s) \<Longrightarrow> c < nextId s"
  shows "inv_unique s"
  using assms unfolding inv_unique_def by blast

text \<open>An event that moves no queued item and brings no new callback in hand.\<close>

lemma inv_unique_frame:
  assumes inv: "inv_unique s"
    and h: "\<And>a. data (heap s' a) = data (heap s a)"
    and n: "nextId s \<le> nextId s'"
    and d: "distinct (in_hand s')" and sub: "set (in_hand s') \<subseteq> set (in_hand s)"
  shows "inv_unique s'"
proof (rule inv_uniqueI)
  fix a show "distinct (map callback (data (heap s' a)))"
    using inv_uniqueD(1) [OF inv, of a] by (simp add: h)
next
  fix a b c assume "a \<noteq> b" "c \<in> queued_cbs s' a"
  then show "c \<notin> queued_cbs s' b"
    using inv_uniqueD(2) [OF inv, of a b c] by (simp add: queued_cbs_def h)
next
  show "distinct (in_hand s')" by (rule d)
next
  fix a c assume "c \<in> set (in_hand s')"
  then show "c \<notin> queued_cbs s' a"
    using inv_uniqueD(4) [OF inv, of c a] sub by (auto simp: queued_cbs_def h)
next
  fix a c assume "c \<in> queued_cbs s' a"
  then show "c < nextId s'"
    using inv_uniqueD(5) [OF inv, of c a] n by (simp add: queued_cbs_def h)
next
  fix c assume "c \<in> set (in_hand s')"
  then show "c < nextId s'" using inv_uniqueD(6) [OF inv, of c] sub n by auto
qed

lemma createQueue_data:
  "\<exists>a i. fst (createQueue k rq cb rn s) = a \<and>
     (\<forall>b. data (heap (snd (createQueue k rq cb rn s)) b) =
        (if b = a
         then (case Map_get (queue s) k of None \<Rightarrow> [] | Some a' \<Rightarrow> data (heap s a))
              @ [\<lparr>id_d = i, request = rq, callback = cb\<rparr>]
         else data (heap s b)))"
  by (cases "Map_get (queue s) k") (simp_all add: createQueue_new createQueue_existing)

lemma createQueue_inv_unique:
  assumes inv: "inv_unique s" and hand: "cb \<notin> set (in_hand s)"
    and heap: "\<And>a. cb \<notin> queued_cbs s a" and lt: "cb < nextId s"
  shows "inv_unique (snd (createQueue k rq cb rn s))"
proof -
  let ?s' = "snd (createQueue k rq cb rn s)"
  from createQueue_data [of k rq cb rn s] obtain a i where
    h: "\<And>b. data (heap ?s' b) =
        (if b = a
         then (case Map_get (queue s) k of None \<Rightarrow> [] | Some a' \<Rightarrow> data (heap s a))
              @ [\<lparr>id_d = i, request = rq, callback = cb\<rparr>]
         else data (heap s b))"
    by blast
  have q: "queued_cbs ?s' b \<subseteq> (if b = a then insert cb (queued_cbs s b) else queued_cbs s b)" for b
    by (auto simp: queued_cbs_def h split: option.splits)
  have ih: "in_hand ?s' = in_hand s" by (simp add: in_hand_def createQueue_frame)
  have n: "nextId s < nextId ?s'" by (rule createQueue_nextId)
  show ?thesis
  proof (rule inv_uniqueI)
    fix b show "distinct (map callback (data (heap ?s' b)))"
      using inv_uniqueD(1) [OF inv, of b] heap [of b]
      by (auto simp: h queued_cbs_def split: option.splits)
  next
    fix b b' c assume "b \<noteq> b'" "c \<in> queued_cbs ?s' b"
    then show "c \<notin> queued_cbs ?s' b'"
      using q [of b] q [of b'] inv_uniqueD(2) [OF inv, of b b' c] heap [of b] heap [of b']
      by (auto split: if_splits)
  next
    show "distinct (in_hand ?s')" using inv_uniqueD(3) [OF inv] by (simp add: ih)
  next
    fix b c assume "c \<in> set (in_hand ?s')"
    then show "c \<notin> queued_cbs ?s' b"
      using q [of b] inv_uniqueD(4) [OF inv, of c b] hand by (auto simp: ih split: if_splits)
  next
    fix b c assume "c \<in> queued_cbs ?s' b"
    then show "c < nextId ?s'"
      using q [of b] inv_uniqueD(5) [OF inv, of c b] lt n by (auto split: if_splits)
  next
    fix c assume "c \<in> set (in_hand ?s')"
    then show "c < nextId ?s'" using inv_uniqueD(6) [OF inv, of c] n by (auto simp: ih)
  qed
qed

lemma add_inv_unique:
  assumes inv: "inv_unique s" and hand: "cb \<notin> set (in_hand s)"
    and heap: "\<And>a. cb \<notin> queued_cbs s a" and lt: "cb < nextId s"
  shows "inv_unique (add rq cb k rn s)"
proof -
  let ?c = "createQueue k rq cb rn s"
  have u: "inv_unique (snd ?c)" using assms by (rule createQueue_inv_unique)
  show ?thesis
  proof (cases "pending s")
    case True
    then show ?thesis using u by (simp add: add_def case_prod_beta createQueue_frame)
  next
    case False
    then have eq: "add rq cb k rn s = (snd ?c)\<lparr>pending := True, loop := ShiftPending (Some (fst ?c))\<rparr>"
      by (simp add: add_def case_prod_beta createQueue_frame execute_def findMostImportant_def)
    show ?thesis unfolding eq
      using inv_uniqueD(3) [OF u]
      by (intro inv_unique_frame [OF u]) (auto simp: in_hand_def)
  qed
qed


lemma invoking_cbs_findMostImportant: "invoking_cbs (loop (findMostImportant b s)) = []"
  by (auto simp: findMostImportant_def after_scan_def await_delay_def Let_def
      split: option.splits)

lemma in_hand_findMostImportant:
  "in_hand (findMostImportant b s) = map cb_of (running s) @ timer_cbs (timers s)"
  by (simp add: in_hand_def invoking_cbs_findMostImportant findMostImportant_frame)

lemma shift_inv_unique:
  assumes inv: "inv_unique s" and lp: "loop s = ShiftPending cq"
  shows "inv_unique (shift cq s)"
proof -
  have triv: "inv_unique (s\<lparr>loop := NoLoop\<rparr>)"
    using inv_uniqueD(3) [OF inv] lp by (intro inv_unique_frame [OF inv]) (auto simp: in_hand_def)
  show ?thesis
  proof (cases cq)
    case None
    then show ?thesis using triv by (simp add: shift_def)
  next
    case (Some q)
    show ?thesis
    proof (cases "data (heap s q)")
      case Nil
      then show ?thesis using triv Some by (simp add: shift_def)
    next
      case (Cons it rest)
      show ?thesis
      proof (cases "rules_at (rules (params s)) (ruleName (heap s q))")
        case None
        then show ?thesis using triv Cons \<open>cq = Some q\<close> by (simp add: shift_def setCooldown_def setTimeout_def)
      next
        case (Some r)
        let ?s' = "shift cq s"
        have h: "data (heap ?s' a) = (if a = q then rest else data (heap s a))"
          and n: "nextId ?s' = nextId s"
          and ih: "in_hand ?s' = callback it # in_hand s" for a
          using Cons Some \<open>cq = Some q\<close> lp
          by (simp_all add: shift_def setCooldown_def setTimeout_def Let_def in_hand_def timer_cbs_append cb_of_def)
        have itq: "callback it \<in> queued_cbs s q" using Cons by (simp add: queued_cbs_def)
        have dq: "distinct (map callback (it # rest))" using inv_uniqueD(1) [OF inv, of q] Cons by simp
        have sub: "queued_cbs ?s' a \<subseteq> queued_cbs s a" for a
          using Cons by (auto simp: queued_cbs_def h)
        show ?thesis
        proof (rule inv_uniqueI)
          fix a show "distinct (map callback (data (heap ?s' a)))"
            using inv_uniqueD(1) [OF inv, of a] dq by (simp add: h)
        next
          fix a b c assume "a \<noteq> b" "c \<in> queued_cbs ?s' a"
          then show "c \<notin> queued_cbs ?s' b"
            using inv_uniqueD(2) [OF inv, of a b c] sub by blast
        next
          show "distinct (in_hand ?s')"
            using inv_uniqueD(3) [OF inv] inv_uniqueD(4) [OF inv, of "callback it" q] itq
            by (auto simp: ih)
        next
          fix a c assume c: "c \<in> set (in_hand ?s')"
          show "c \<notin> queued_cbs ?s' a"
          proof (cases "c = callback it")
            case True
            show ?thesis
            proof (cases "a = q")
              case True
              then show ?thesis using dq \<open>c = callback it\<close> by (auto simp: queued_cbs_def h)
            next
              case False
              then show ?thesis
                using inv_uniqueD(2) [OF inv, of q a c] itq True sub by blast
            qed
          next
            case False
            then show ?thesis using c inv_uniqueD(4) [OF inv, of c a] sub by (auto simp: ih)
          qed
        next
          fix a c assume "c \<in> queued_cbs ?s' a"
          then show "c < nextId ?s'" using inv_uniqueD(5) [OF inv, of c a] sub by (auto simp: n)
        next
          fix c assume "c \<in> set (in_hand ?s')"
          then show "c < nextId ?s'"
            using inv_uniqueD(6) [OF inv, of c] inv_uniqueD(5) [OF inv itq] by (auto simp: ih n)
        qed
      qed
    qed
  qed
qed

lemma timer_fires_inv_unique:
  assumes inv: "inv_unique s" and n: "n < length (timers s)"
  shows "inv_unique (run_timer (snd (timers s ! n)) (s\<lparr>timers := remove_nth n (timers s)\<rparr>))"
proof -
  let ?s1 = "s\<lparr>timers := remove_nth n (timers s)\<rparr>"
  have d: "distinct (timer_cbs (timers s))" using inv_uniqueD(3) [OF inv] by (simp add: in_hand_def)
  have ihs: "in_hand ?s1 = invoking_cbs (loop s) @ map cb_of (running s) @
      timer_cbs (remove_nth n (timers s))"
    by (simp add: in_hand_def)
  show ?thesis
  proof (cases "snd (timers s ! n)")
    case (CooldownTimeout q c)
    then have "in_hand ?s1 = in_hand s"
      using timer_cbs_fired_other [OF n] by (simp add: in_hand_def)
    then show ?thesis unfolding CooldownTimeout
      using inv_uniqueD(3) [OF inv]
      by (intro inv_unique_frame [OF inv]) (auto simp: run_timer_def Let_def remove_def in_hand_def)
  next
    case (HeatTimeout l)
    then have "in_hand ?s1 = in_hand s"
      using timer_cbs_fired_other [OF n] by (simp add: in_hand_def)
    then show ?thesis unfolding HeatTimeout
      using inv_uniqueD(3) [OF inv]
      by (intro inv_unique_frame [OF inv]) (auto simp: run_timer_def in_hand_def)
  next
    case (RetryDelay it)
    from timer_cbs_fired_retry [OF n RetryDelay d] have
      d1: "distinct (timer_cbs (remove_nth n (timers s)))"
      and nin: "callback (item it) \<notin> set (timer_cbs (remove_nth n (timers s)))"
      and st: "set (timer_cbs (timers s)) =
          insert (callback (item it)) (set (timer_cbs (remove_nth n (timers s))))"
      by blast+
    have cin: "callback (item it) \<in> set (in_hand s)" using st by (auto simp: in_hand_def)
    have sub: "set (in_hand ?s1) \<subseteq> set (in_hand s)" using st by (auto simp: in_hand_def)
    have dist: "distinct (in_hand ?s1)"
      using inv_uniqueD(3) [OF inv] d1 st by (auto simp: in_hand_def)
    have u1: "inv_unique ?s1"
      by (rule inv_unique_frame [OF inv _ _ dist sub]) simp_all
    have out: "callback (item it) \<notin> set (in_hand ?s1)"
      using inv_uniqueD(3) [OF inv] st nin by (auto simp: in_hand_def)
    have nq: "callback (item it) \<notin> queued_cbs ?s1 a" for a
      using inv_uniqueD(4) [OF inv cin, of a] by (simp add: queued_cbs_def)
    have lt: "callback (item it) < nextId ?s1" using inv_uniqueD(6) [OF inv cin] by simp
    show ?thesis
      using add_inv_unique [OF u1 out nq lt] by (simp add: RetryDelay run_timer_def)
  qed
qed


lemma hand_moved:
  assumes "distinct (A @ R @ T)" and "distinct R'" and "c \<notin> set R'" and "set R' \<subseteq> set R"
    and "c \<in> set R" and "E = [] \<or> E = [c]"
  shows "distinct (A @ R' @ T @ E) \<and> set (A @ R' @ T @ E) \<subseteq> set (A @ R @ T)"
  using assms by auto

lemma step_inv_unique:
  assumes inv: "inv_unique s"
  shows "inv_unique (step e s)"
proof -
  note dist = inv_uniqueD(3) [OF inv]
  show ?thesis
  proof (cases e)
    case (Tick d)
    then show ?thesis using dist
      by (auto intro!: inv_unique_frame [OF inv] simp: inv in_hand_def)
  next
    case (Request fn k r)
    let ?s1 = "s\<lparr>nextId := Suc (nextId s)\<rparr>"
    have u1: "inv_unique ?s1"
      using dist by (intro inv_unique_frame [OF inv]) (auto simp: in_hand_def)
    have "nextId s \<notin> set (in_hand ?s1)"
      using inv_uniqueD(6) [OF inv, of "nextId s"] by (auto simp: in_hand_def)
    moreover have "nextId s \<notin> queued_cbs ?s1 a" for a
      using inv_uniqueD(5) [OF inv, of "nextId s" a] by (auto simp: queued_cbs_def)
    ultimately show ?thesis using Request add_inv_unique [OF u1, of "nextId s"]
      by (simp add: request_fn_def)
  next
    case Clear
    then show ?thesis using dist
      by (auto intro!: inv_unique_frame [OF inv] simp: clear_def in_hand_def)
  next
    case (RetryNow d)
    then show ?thesis using dist
      by (cases "loop s")
         (auto intro!: inv_unique_frame [OF inv] simp: inv in_hand_def cb_of_retryFn)
  next
    case (RetryLater n d)
    then show ?thesis using dist
      by (auto intro!: inv_unique_frame [OF inv] simp: inv in_hand_def map_cb_of_update)
  next
    case ShiftResumes
    then show ?thesis using inv by (cases "loop s") (simp_all add: shift_inv_unique)
  next
    case (OpThrows err)
    then show ?thesis using dist
      by (cases "loop s")
         (auto intro!: inv_unique_frame [OF inv]
            simp: inv in_hand_def execute_threw_def invoke_callback_def)
  next
    case OpReturns
    show ?thesis
    proof (cases "loop s")
      case (Invoking x)
      have ih: "in_hand (step e s) = map cb_of (running s) @ [cb_of x] @ timer_cbs (timers s)"
        using OpReturns Invoking
        by (simp add: execute_called_def execute_def in_hand_findMostImportant heat_def
            setTimeout_def Let_def timer_cbs_append)
      have "distinct (map cb_of (running s) @ [cb_of x] @ timer_cbs (timers s))"
        and "set (map cb_of (running s) @ [cb_of x] @ timer_cbs (timers s)) \<subseteq> set (in_hand s)"
        using dist Invoking by (auto simp: in_hand_def)
      then have "distinct (in_hand (step e s))" "set (in_hand (step e s)) \<subseteq> set (in_hand s)"
        by (simp_all only: ih)
      then show ?thesis using OpReturns Invoking
        by (intro inv_unique_frame [OF inv])
           (simp_all add: execute_called_def execute_frame heat_frame)
    qed (simp_all add: OpReturns inv)
  next
    case (OpSettles n res)
    show ?thesis
    proof (cases "n < length (running s)")
      case True
      from remove_nth_distinct_map [of n "running s" cb_of] True dist have
        d1: "distinct (map cb_of (remove_nth n (running s)))"
        and nin: "cb_of (running s ! n) \<notin> cb_of ` set (remove_nth n (running s))"
        by (auto simp: in_hand_def)
      have sub: "set (remove_nth n (running s)) \<subseteq> set (running s)" by (rule set_remove_nth)
      have mem: "running s ! n \<in> set (running s)" using True by simp
      have ih: "in_hand (step e s) =
          invoking_cbs (loop s) @ map cb_of (remove_nth n (running s)) @ timer_cbs (timers s) @
          (case res of Resolves v \<Rightarrow> if retryState (running s ! n) then [cb_of (running s ! n)] else []
           | Rejects err \<Rightarrow> [])"
        using OpSettles True
        by (simp add: execute_settled_def invoke_callback_def addRetry_def setTimeout_def in_hand_def
            timer_cbs_append cb_of_def split: outcome.splits)
      let ?E = "case res of Resolves v \<Rightarrow> if retryState (running s ! n) then [cb_of (running s ! n)] else []
             | Rejects err \<Rightarrow> []"
      have p1: "distinct (invoking_cbs (loop s) @ map cb_of (running s) @ timer_cbs (timers s))"
        using dist by (simp add: in_hand_def)
      have p4: "set (map cb_of (remove_nth n (running s))) \<subseteq> set (map cb_of (running s))"
        using sub by auto
      have p3: "cb_of (running s ! n) \<notin> set (map cb_of (remove_nth n (running s)))"
        using nin by simp
      have p5: "cb_of (running s ! n) \<in> set (map cb_of (running s))" using mem by simp
      have p6: "?E = [] \<or> ?E = [cb_of (running s ! n)]" by (simp split: outcome.splits)
      from hand_moved [OF p1 d1 p3 p4 p5 p6]
      have "distinct (invoking_cbs (loop s) @ map cb_of (remove_nth n (running s)) @
            timer_cbs (timers s) @ ?E)"
        and "set (invoking_cbs (loop s) @ map cb_of (remove_nth n (running s)) @
            timer_cbs (timers s) @ ?E) \<subseteq> set (in_hand s)"
        by (simp_all only: in_hand_def)
      then have "distinct (in_hand (step e s))" "set (in_hand (step e s)) \<subseteq> set (in_hand s)"
        by (simp_all only: ih)
      then show ?thesis using OpSettles True
        by (intro inv_unique_frame [OF inv])
           (auto simp: execute_settled_def invoke_callback_def addRetry_def setTimeout_def split: outcome.splits)
    next
      case False
      then show ?thesis using OpSettles inv by auto
    qed
  next
    case (TimerFires n)
    then show ?thesis using inv by (simp add: timer_fires_inv_unique)
  next
    case LoopWakes
    show ?thesis
    proof (cases "loop s")
      case (Sleeping d)
      then show ?thesis using LoopWakes dist
        by (auto intro!: inv_unique_frame [OF inv]
            simp: inv invoking_cbs_findMostImportant findMostImportant_frame in_hand_def)
    qed (simp_all add: LoopWakes inv)
  next
    case (OtherResolves d name)
    then show ?thesis using dist
      by (auto intro!: inv_unique_frame [OF inv] simp: other_getRule_frame in_hand_def)
  qed
qed

lemma constructor_inv_unique: "inv_unique (constructor_at dr p t0)"
  by (simp add: inv_unique_def constructor_at_def Let_def emptyQueueItem_def in_hand_def
      queued_cbs_def)

lemma reachable_inv_unique: "reachable s \<Longrightarrow> inv_unique s"
  by (induction rule: reachable.induct) (simp_all add: constructor_inv_unique step_inv_unique)

subsection \<open>Only a callback in hand is invoked\<close>

lemma add_settled: "settled (add rq cb k rn s) = settled s"
  by (simp add: add_def case_prod_beta execute_frame createQueue_frame)

lemma shift_settled: "settled (shift cq s) = settled s"
  by (simp add: shift_def setCooldown_def setTimeout_def Let_def split: option.splits list.splits)

lemma run_timer_settled: "settled (run_timer cb s) = settled s"
  by (cases cb) (simp_all add: run_timer_def Let_def remove_def add_settled)

lemma step_settled:
  "\<exists>new. settled (step e s) = settled s @ new \<and> fst ` set new \<subseteq> set (in_hand s)"
proof (cases e)
  case (OpThrows err)
  then show ?thesis
    by (cases "loop s")
       (simp_all add: execute_threw_def invoke_callback_def in_hand_def cb_of_def)
next
  case (OpSettles n res)
  show ?thesis
  proof (cases "n < length (running s)")
    case True
    then have "cb_of (running s ! n) \<in> set (in_hand s)" by (simp add: in_hand_def)
    then show ?thesis using OpSettles True
      by (simp add: execute_settled_def invoke_callback_def addRetry_def setTimeout_def cb_of_def
          split: outcome.splits)
  next
    case False
    then show ?thesis using OpSettles by auto
  qed
qed (simp_all add: request_fn_def add_settled clear_def shift_settled run_timer_settled
    execute_called_def execute_frame heat_frame findMostImportant_frame other_getRule_frame
    split: loop_state.splits)


subsection \<open>A callback that is not live stays so\<close>

lemma set_Map_set: "set (Map_set k a m) \<subseteq> insert (k, a) (set m)"
  unfolding Map_set_def by (induction m) auto

lemma in_Map_set_same: "(k, a) \<in> set (Map_set k a m)"
  unfolding Map_set_def by (induction m) auto

lemma createQueue_queue:
  "queue (snd (createQueue k rq cb rn s)) = Map_set k (fst (createQueue k rq cb rn s)) (queue s)"
  by (cases "Map_get (queue s) k")
     (simp_all add: createQueue_new createQueue_existing getRule_frame)

lemma createQueue_queued:
  "queued_cbs (snd (createQueue k rq cb rn s)) b \<subseteq>
     (if b = fst (createQueue k rq cb rn s)
      then insert cb (if (k, b) \<in> set (queue s) then queued_cbs s b else {})
      else queued_cbs s b)"
proof (cases "Map_get (queue s) k")
  case None
  then show ?thesis by (auto simp: createQueue_new queued_cbs_def)
next
  case (Some a)
  then have "(k, a) \<in> set (queue s)" by (simp add: Map_get_def map_of_SomeD)
  then show ?thesis using Some by (auto simp: createQueue_existing queued_cbs_def)
qed

lemma createQueue_stored:
  "stored_cbs (snd (createQueue k rq cb rn s)) \<subseteq> insert cb (stored_cbs s)"
proof
  fix c assume "c \<in> stored_cbs (snd (createQueue k rq cb rn s))"
  then obtain k' b where m: "(k', b) \<in> set (Map_set k (fst (createQueue k rq cb rn s)) (queue s))"
    and c: "c \<in> queued_cbs (snd (createQueue k rq cb rn s)) b"
    by (auto simp: stored_cbs_def createQueue_queue)
  show "c \<in> insert cb (stored_cbs s)"
  proof (cases "b = fst (createQueue k rq cb rn s)")
    case True
    then show ?thesis using createQueue_queued [of k rq cb rn s b] c
      by (auto simp: stored_cbs_def split: if_splits)
  next
    case False
    then have "(k', b) \<in> set (queue s)" using m set_Map_set by fastforce
    moreover have "c \<in> queued_cbs s b" using createQueue_queued [of k rq cb rn s b] c False by auto
    ultimately show ?thesis by (auto simp: stored_cbs_def)
  qed
qed

lemma createQueue_selected:
  "selected_cb (snd (createQueue k rq cb rn s)) \<subseteq> insert cb (selected_cb s)"
proof (cases "loop s")
  case (ShiftPending cq)
  show ?thesis
  proof (cases cq)
    case None
    then show ?thesis using ShiftPending by (simp add: selected_cb_def createQueue_frame)
  next
    case (Some q)
    from createQueue_data [of k rq cb rn s] obtain a i where
      h: "\<And>b. data (heap (snd (createQueue k rq cb rn s)) b) =
        (if b = a
         then (case Map_get (queue s) k of None \<Rightarrow> [] | Some a' \<Rightarrow> data (heap s a))
              @ [\<lparr>id_d = i, request = rq, callback = cb\<rparr>]
         else data (heap s b))"
      by blast
    show ?thesis using ShiftPending Some
      by (auto simp: selected_cb_def createQueue_frame h split: list.splits option.splits
          if_splits)
  qed
qed (simp_all add: selected_cb_def createQueue_frame)

lemma add_live: "live (add rq cb k rn s) \<subseteq> insert cb (live s)"
proof -
  let ?c = "createQueue k rq cb rn s"
  have ih: "in_hand (snd ?c) = in_hand s" by (simp add: in_hand_def createQueue_frame)
  show ?thesis
  proof (cases "pending s")
    case True
    then have "add rq cb k rn s = snd ?c" by (simp add: add_def case_prod_beta createQueue_frame)
    then show ?thesis
      using createQueue_stored [of k rq cb rn s] createQueue_selected [of k rq cb rn s]
      by (auto simp: live_def ih)
  next
    case False
    then have eq: "add rq cb k rn s = (snd ?c)\<lparr>pending := True, loop := ShiftPending (Some (fst ?c))\<rparr>"
      by (simp add: add_def case_prod_beta createQueue_frame execute_def findMostImportant_def)
    have "(k, fst ?c) \<in> set (queue (snd ?c))" by (simp add: createQueue_queue in_Map_set_same)
    then have "queued_cbs (snd ?c) (fst ?c) \<subseteq> stored_cbs (snd ?c)"
      by (auto simp: stored_cbs_def)
    then have "selected_cb (add rq cb k rn s) \<subseteq> stored_cbs (snd ?c)"
      by (auto simp: eq selected_cb_def queued_cbs_def split: list.splits)
    moreover have "stored_cbs (add rq cb k rn s) = stored_cbs (snd ?c)"
      by (simp add: eq stored_cbs_def queued_cbs_def)
    moreover have "set (in_hand (add rq cb k rn s)) \<subseteq> set (in_hand s)"
      by (auto simp: eq in_hand_def createQueue_frame)
    ultimately show ?thesis using createQueue_stored [of k rq cb rn s]
      by (auto simp: live_def)
  qed
qed

lemma scan_live: "live (findMostImportant None s) \<subseteq> live s"
proof -
  let ?s' = "findMostImportant None s"
  have st: "stored_cbs ?s' = stored_cbs s"
    by (simp add: stored_cbs_def queued_cbs_def findMostImportant_frame)
  have "selected_cb ?s' \<subseteq> stored_cbs s"
  proof (cases "loop ?s'")
    case (ShiftPending cq)
    show ?thesis
    proof (cases cq)
      case None
      then show ?thesis using ShiftPending by (simp add: selected_cb_def)
    next
      case (Some q)
      from scan_selected [of s q] ShiftPending Some obtain k where "(k, q) \<in> set (queue s)"
        by auto
      then have "queued_cbs s q \<subseteq> stored_cbs s" by (auto simp: stored_cbs_def)
      then show ?thesis using ShiftPending Some
        by (auto simp: selected_cb_def queued_cbs_def findMostImportant_frame split: list.splits)
    qed
  qed (simp_all add: selected_cb_def)
  moreover have "set (in_hand ?s') \<subseteq> set (in_hand s)"
    by (auto simp: invoking_cbs_findMostImportant findMostImportant_frame in_hand_def)
  ultimately show ?thesis by (auto simp: live_def st)
qed


lemma live_frame:
  assumes "\<And>a. data (heap s' a) = data (heap s a)" and "set (queue s') \<subseteq> set (queue s)"
    and "loop s' = loop s \<or> (\<forall>q. loop s' \<noteq> ShiftPending (Some q))"
    and "set (in_hand s') \<subseteq> set (in_hand s)"
  shows "live s' \<subseteq> live s"
proof -
  have "stored_cbs s' \<subseteq> stored_cbs s"
    using assms(1,2) by (auto simp: stored_cbs_def queued_cbs_def)
  moreover have "selected_cb s' \<subseteq> selected_cb s"
    using assms(1,3) by (auto simp: selected_cb_def split: loop_state.splits option.splits)
  ultimately show ?thesis using assms(4) by (auto simp: live_def)
qed

lemma shift_live:
  assumes "loop s = ShiftPending cq"
  shows "live (shift cq s) \<subseteq> live s"
proof -
  have triv: "live (s\<lparr>loop := NoLoop\<rparr>) \<subseteq> live s"
    by (rule live_frame) (auto simp: in_hand_def assms)
  show ?thesis
  proof (cases cq)
    case None
    then show ?thesis using triv by (simp add: shift_def)
  next
    case (Some q)
    show ?thesis
    proof (cases "data (heap s q)")
      case Nil
      then show ?thesis using triv Some by (simp add: shift_def)
    next
      case (Cons it rest)
      show ?thesis
      proof (cases "rules_at (rules (params s)) (ruleName (heap s q))")
        case None
        then show ?thesis using triv Cons \<open>cq = Some q\<close> by (simp add: shift_def setCooldown_def setTimeout_def)
      next
        case (Some r)
        let ?s' = "shift cq s"
        have h: "data (heap ?s' a) = (if a = q then rest else data (heap s a))"
          and g: "queue ?s' = queue s"
          and ih: "in_hand ?s' = callback it # in_hand s"
          and l: "selected_cb ?s' = {}" for a
          using Cons Some \<open>cq = Some q\<close> assms
          by (simp_all add: shift_def setCooldown_def setTimeout_def Let_def in_hand_def timer_cbs_append
              cb_of_def selected_cb_def)
        have "callback it \<in> selected_cb s"
          using Cons \<open>cq = Some q\<close> assms by (simp add: selected_cb_def)
        moreover have "stored_cbs ?s' \<subseteq> stored_cbs s"
          using Cons by (auto simp: stored_cbs_def queued_cbs_def h g split: if_splits)
        ultimately show ?thesis by (auto simp: live_def ih l)
      qed
    qed
  qed
qed

lemma set_Map_delete: "set (Map_delete k m) \<subseteq> set m"
  by (auto simp: Map_delete_def AList.delete_eq)

lemma timer_cbs_remove_nth_subset:
  "set (timer_cbs (remove_nth n ts)) \<subseteq> set (timer_cbs ts)"
proof (cases "n < length ts")
  case True
  then show ?thesis using timer_cbs_split [OF True] by (auto simp: timer_cbs_remove_nth)
next
  case False
  then show ?thesis by (simp add: remove_nth_def)
qed

lemma timer_fires_live:
  assumes "n < length (timers s)"
  shows "live (run_timer (snd (timers s ! n)) (s\<lparr>timers := remove_nth n (timers s)\<rparr>)) \<subseteq> live s"
proof -
  let ?s1 = "s\<lparr>timers := remove_nth n (timers s)\<rparr>"
  have sub: "set (in_hand ?s1) \<subseteq> set (in_hand s)"
    using timer_cbs_remove_nth_subset [of n "timers s"] by (auto simp: in_hand_def)
  have l1: "live ?s1 \<subseteq> live s" by (rule live_frame) (use sub in auto)
  show ?thesis
  proof (cases "snd (timers s ! n)")
    case (CooldownTimeout q c)
    have "live (run_timer (CooldownTimeout q c) ?s1) \<subseteq> live ?s1"
      using set_Map_delete
      by (intro live_frame) (auto simp: run_timer_def Let_def remove_def in_hand_def)
    then show ?thesis using l1 by (simp add: CooldownTimeout)
  next
    case (HeatTimeout l)
    have "live (run_timer (HeatTimeout l) ?s1) \<subseteq> live ?s1"
      by (intro live_frame) (auto simp: run_timer_def in_hand_def)
    then show ?thesis using l1 by (simp add: HeatTimeout)
  next
    case (RetryDelay it)
    obtain dl where e: "timers s ! n = (dl, RetryDelay it)"
      using RetryDelay by (cases "timers s ! n") auto
    have "callback (item it) \<in> set (timer_cbs [timers s ! n])" by (simp add: e)
    then have "callback (item it) \<in> set (in_hand s)"
      using timer_cbs_split [OF assms] by (simp add: in_hand_def)
    then have "callback (item it) \<in> live s" by (simp add: live_def)
    then show ?thesis
      using add_live [of "request (item it)" "callback (item it)" _ _ ?s1] l1
      by (auto simp: RetryDelay run_timer_def)
  qed
qed

lemma step_nextId: "nextId s \<le> nextId (step e s)"
proof (cases e)
  case (Request fn k r)
  then show ?thesis
    using createQueue_nextId [of "s\<lparr>nextId := Suc (nextId s)\<rparr>"]
    by (simp add: request_fn_def add_def case_prod_beta execute_frame less_imp_le_nat Suc_lessD)
next
  case (TimerFires n)
  show ?thesis
  proof (cases "snd (timers s ! n)")
    case (RetryDelay it)
    then show ?thesis
      using TimerFires createQueue_nextId [of "s\<lparr>timers := remove_nth n (timers s)\<rparr>"]
      by (simp add: run_timer_def add_def case_prod_beta execute_frame less_imp_le_nat)
  qed (simp_all add: TimerFires run_timer_def Let_def remove_def)
qed (simp_all add: clear_def shift_def setCooldown_def setTimeout_def Let_def execute_threw_def
    invoke_callback_def execute_called_def execute_frame heat_frame execute_settled_def
    addRetry_def setTimeout_def findMostImportant_frame other_getRule_frame
    split: loop_state.splits option.splits list.splits outcome.splits)


lemma step_live: "live (step e s) \<subseteq> live s \<union> {c. nextId s \<le> c}"
proof (cases e)
  case (Tick d)
  have "live (step e s) \<subseteq> live s"
    unfolding Tick by (cases "0 \<le> d"; simp; intro live_frame; auto simp: in_hand_def)
  then show ?thesis by auto
next
  case (Request fn k r)
  have "live (s\<lparr>nextId := Suc (nextId s)\<rparr>) \<subseteq> live s"
    by (rule live_frame) (auto simp: in_hand_def)
  then show ?thesis
    using Request add_live [of fn "nextId s" _ _ "s\<lparr>nextId := Suc (nextId s)\<rparr>"]
    by (auto simp: request_fn_def)
next
  case Clear
  have "live (step e s) \<subseteq> live s"
    unfolding Clear by (simp add: clear_def; intro live_frame; auto simp: in_hand_def)
  then show ?thesis by auto
next
  case (RetryNow d)
  have "live (step e s) \<subseteq> live s"
    unfolding RetryNow
    by (cases "loop s"; simp; intro live_frame; auto simp: in_hand_def cb_of_retryFn)
  then show ?thesis by auto
next
  case (RetryLater n d)
  have "live (step e s) \<subseteq> live s"
    unfolding RetryLater
    by (cases "n < length (running s)"; simp; intro live_frame;
        auto simp: in_hand_def map_cb_of_update simp del: set_map)
  then show ?thesis by auto
next
  case ShiftResumes
  have "live (step e s) \<subseteq> live s"
    unfolding ShiftResumes by (cases "loop s") (simp_all add: shift_live)
  then show ?thesis by auto
next
  case (OpThrows err)
  have "live (step e s) \<subseteq> live s"
    unfolding OpThrows
    by (cases "loop s"; simp add: execute_threw_def invoke_callback_def; intro live_frame;
        auto simp: in_hand_def)
  then show ?thesis by auto
next
  case OpReturns
  have "live (step e s) \<subseteq> live s"
  proof (cases "loop s")
    case (Invoking x)
    let ?s1 = "heat (s\<lparr>running := running s @ [x]\<rparr>)\<lparr>pending := True\<rparr>"
    have "live ?s1 \<subseteq> live s"
      using Invoking
      by (intro live_frame)
         (auto simp: heat_frame in_hand_def heat_def setTimeout_def Let_def timer_cbs_append)
    then show ?thesis using OpReturns Invoking scan_live [of ?s1]
      by (auto simp: execute_called_def execute_def)
  qed (simp_all add: OpReturns)
  then show ?thesis by auto
next
  case (OpSettles n res)
  have "live (step e s) \<subseteq> live s"
  proof (cases "n < length (running s)")
    case True
    have sub: "set (remove_nth n (running s)) \<subseteq> set (running s)" by (rule set_remove_nth)
    have mem: "running s ! n \<in> set (running s)" using True by simp
    have "live (execute_settled (running s ! n) res (s\<lparr>running := remove_nth n (running s)\<rparr>))
        \<subseteq> live s"
      using mem
      by (intro live_frame)
         (auto dest: subsetD [OF sub]
            simp: execute_settled_def invoke_callback_def addRetry_def setTimeout_def in_hand_def
              timer_cbs_append cb_of_def split: outcome.splits)
    then show ?thesis using OpSettles True by simp
  next
    case False
    then show ?thesis using OpSettles by auto
  qed
  then show ?thesis by auto
next
  case (TimerFires n)
  have "live (step e s) \<subseteq> live s"
    unfolding TimerFires using timer_fires_live [of n s] by simp
  then show ?thesis by auto
next
  case LoopWakes
  have "live (step e s) \<subseteq> live s"
    unfolding LoopWakes using scan_live [of s] by (cases "loop s") simp_all
  then show ?thesis by auto
next
  case (OtherResolves d name)
  have "live (step e s) \<subseteq> live s"
    unfolding OtherResolves
    by (simp; intro live_frame; auto simp: other_getRule_frame in_hand_def)
  then show ?thesis by auto
qed

lemma step_dead:
  assumes "c < nextId s" and "c \<notin> live s"
  shows "c < nextId (step e s) \<and> c \<notin> live (step e s) \<and>
     invocations c (step e s) = invocations c s"
proof -
  from step_settled [of e s] obtain new where
    n: "settled (step e s) = settled s @ new" "fst ` set new \<subseteq> set (in_hand s)" by blast
  have "filter (\<lambda>e. fst e = c) new = []"
    using n(2) assms(2) by (auto simp: live_def filter_empty_conv)
  then have "invocations c (step e s) = invocations c s" by (simp add: invocations_def n(1))
  then show ?thesis using assms step_nextId [of s e] step_live [of e s] by auto
qed

lemma run_dead:
  assumes "c < nextId s" and "c \<notin> live s"
  shows "invocations c (run es s) = invocations c s"
  using assms
proof (induction es arbitrary: s)
  case Nil
  show ?case by simp
next
  case (Cons e es)
  from step_dead [OF Cons.prems, of e] Cons.IH [of "step e s"] show ?case by simp
qed


lemma totalLength_clear: "totalLength (clear s) = 0"
  by (simp add: totalLength_def clear_def)

lemma live_clear: "live (clear s) = selected_cb s \<union> set (in_hand s)"
  by (auto simp: live_def clear_def stored_cbs_def selected_cb_def in_hand_def
      split: loop_state.splits option.splits list.splits)

lemma same_callback_same_item:
  assumes "distinct (map callback xs)" and "x \<in> set xs" and "y \<in> set xs"
    and "callback x = callback y"
  shows "x = y"
  using assms by (meson distinct_map inj_on_def)

text \<open>
  C7, as stated, fails in its second part. In the repository's own test of \<^verbatim>\<open>clear\<close> two
  requests are submitted and \<^verbatim>\<open>clear()\<close> is called in the same synchronous run. The first
  request has started the loop with its partition pinned; the continuation of \<^verbatim>\<open>shift\<close>
  holds a reference to that partition, which \<^verbatim>\<open>clear\<close> only removed from the store. So the
  first item, still queued when \<^verbatim>\<open>clear\<close> ran, is popped afterwards and its callback is
  invoked when its operation resolves.
\<close>

theorem clear_counterexample:
  "queue state_before_clear = [(''1'', 1), (''2'', 4)]
   \<and> data (heap state_before_clear 1) = [\<lparr>id_d = 2, request = 1, callback = 0\<rparr>]
   \<and> settled state_before_clear = []
   \<and> totalLength (clear state_before_clear) = 0
   \<and> settled (run [ShiftResumes, OpReturns, OpSettles 0 (Resolves (Val 7))]
        (clear state_before_clear)) = [(0, Fulfilled (Val 7))]"
  by (simp add: state_before_clear_def run_defs cfg_q1_def)

text \<open>
  C7, amended. \<^verbatim>\<open>clear()\<close> empties the store, so \<open>totalLength\<close> is 0 right after it. In
  every reachable state, for every item queued in a stored partition at that moment, other
  than the first item of the partition that the dispatch loop has already selected and is
  about to pop, the completion callback is never invoked afterwards: whatever events follow,
  the invocations of that callback are those recorded before.
\<close>

theorem clear_drops_queued_items:
  "queue (clear s) = [] \<and> totalLength (clear s) = 0
   \<and> (reachable s \<longrightarrow>
        (\<forall>k a it. (k, a) \<in> set (queue s) \<and> it \<in> set (data (heap s a)) \<and>
            \<not> (\<exists>rest. loop s = ShiftPending (Some a) \<and> data (heap s a) = it # rest) \<longrightarrow>
          (\<forall>es. invocations (callback it) (run es (clear s)) = invocations (callback it) s)))"
proof (intro conjI impI allI)
  show "queue (clear s) = []" by (simp add: clear_def)
  show "totalLength (clear s) = 0" by (rule totalLength_clear)
next
  fix k a it es
  assume r: "reachable s"
    and q: "(k, a) \<in> set (queue s) \<and> it \<in> set (data (heap s a)) \<and>
            \<not> (\<exists>rest. loop s = ShiftPending (Some a) \<and> data (heap s a) = it # rest)"
  have u: "inv_unique s" using r by (rule reachable_inv_unique)
  let ?c = "callback it"
  have cq: "?c \<in> queued_cbs s a" using q by (simp add: queued_cbs_def)
  have lt: "?c < nextId (clear s)" using inv_uniqueD(5) [OF u cq] by (simp add: clear_def)
  have hand: "?c \<notin> set (in_hand s)" using inv_uniqueD(4) [OF u, of ?c a] cq by blast
  have sel: "?c \<notin> selected_cb s"
  proof
    assume "?c \<in> selected_cb s"
    then obtain q' it' rest where l: "loop s = ShiftPending (Some q')"
      and d: "data (heap s q') = it' # rest" and c: "callback it' = ?c"
      by (auto simp: selected_cb_def split: loop_state.splits option.splits list.splits)
    have cq': "?c \<in> queued_cbs s q'" using d c by (auto simp: queued_cbs_def intro: rev_image_eqI)
    have "q' = a" using inv_uniqueD(2) [OF u, of q' a ?c] cq cq' by blast
    moreover have "it' = it"
      using same_callback_same_item [OF inv_uniqueD(1) [OF u, of a], of it' it] d c q
        \<open>q' = a\<close> by simp
    ultimately show False using q l d by simp
  qed
  have "?c \<notin> live (clear s)" using hand sel by (simp add: live_clear)
  from run_dead [OF lt this, of es]
  show "invocations ?c (run es (clear s)) = invocations ?c s"
    by (simp add: invocations_def clear_def)
qed

lemma reachable_state_before_clear: "reachable state_before_clear"
  unfolding state_before_clear_def constructor_def by (intro reachable_run reachable_new)

theorem clear_drops_queued_items_witness:
  "reachable state_before_clear
   \<and> queue state_before_clear = [(''1'', 1), (''2'', 4)]
   \<and> data (heap state_before_clear 4) = [\<lparr>id_d = 5, request = 2, callback = 3\<rparr>]
   \<and> loop state_before_clear = ShiftPending (Some 1)
   \<and> invocations 3 (run [ShiftResumes, OpReturns, OpSettles 0 (Resolves (Val 7)), Tick 1000,
        TimerFires 0, LoopWakes, ShiftResumes] (clear state_before_clear)) = []"
proof -
  have q: "queue state_before_clear = [(''1'', 1), (''2'', 4)]"
    and d: "data (heap state_before_clear 4) = [\<lparr>id_d = 5, request = 2, callback = 3\<rparr>]"
    and l: "loop state_before_clear = ShiftPending (Some 1)"
    and i: "invocations 3 state_before_clear = []"
    by (simp_all add: state_before_clear_def run_defs cfg_q1_def invocations_def)
  have p: "(''2'', 4) \<in> set (queue state_before_clear) \<and>
      \<lparr>id_d = 5, request = 2, callback = 3\<rparr> \<in> set (data (heap state_before_clear 4)) \<and>
      \<not> (\<exists>rest. loop state_before_clear = ShiftPending (Some 4) \<and>
            data (heap state_before_clear 4) = \<lparr>id_d = 5, request = 2, callback = 3\<rparr> # rest)"
    by (simp add: q d l)
  have "invocations (callback \<lparr>id_d = 5, request = 2, callback = 3\<rparr>)
      (run [ShiftResumes, OpReturns, OpSettles 0 (Resolves (Val 7)), Tick 1000,
        TimerFires 0, LoopWakes, ShiftResumes] (clear state_before_clear))
      = invocations (callback \<lparr>id_d = 5, request = 2, callback = 3\<rparr>) state_before_clear"
    using clear_drops_queued_items [of state_before_clear] reachable_state_before_clear p
    by blast
  then have "invocations 3 (run [ShiftResumes, OpReturns, OpSettles 0 (Resolves (Val 7)), Tick 1000,
        TimerFires 0, LoopWakes, ShiftResumes] (clear state_before_clear)) = []"
    by (simp add: i del: run.simps)
  then show ?thesis using reachable_state_before_clear q d l by blast
qed


section \<open>First in, first out under one key\<close>

lemma in_Map_set:
  assumes "distinct (map fst m)"
  shows "((k', a') \<in> set (Map_set k a m)) = (if k' = k then a' = a else (k', a') \<in> set m)"
proof -
  have d: "distinct (map fst (AList.update k a m))" using assms by (simp add: distinct_update)
  have "((k', a') \<in> set (AList.update k a m)) = (map_of (AList.update k a m) k' = Some a')"
    using d by simp
  also have "\<dots> = (if k' = k then a' = a else map_of m k' = Some a')"
    by (auto simp: update_conv')
  also have "\<dots> = (if k' = k then a' = a else (k', a') \<in> set m)"
    using assms by simp
  finally show ?thesis by (simp add: Map_set_def)
qed

lemma in_Map_delete: "((k', a') \<in> set (Map_delete k m)) = (k' \<noteq> k \<and> (k', a') \<in> set m)"
  by (auto simp: Map_delete_def AList.delete_eq)

lemma distinct_Map_set: "distinct (map fst m) \<Longrightarrow> distinct (map fst (Map_set k a m))"
  by (simp add: Map_set_def distinct_update)

lemma distinct_Map_delete: "distinct (map fst m) \<Longrightarrow> distinct (map fst (Map_delete k m))"
  by (simp add: Map_delete_def distinct_delete)

lemma Map_get_in: "distinct (map fst m) \<Longrightarrow> (Map_get m k = Some a) = ((k, a) \<in> set m)"
  by (simp add: Map_get_def)

lemma createQueue_store_ok:
  assumes "store_ok s"
  shows "store_ok (snd (createQueue k rq cb rn s))"
proof (cases "Map_get (queue s) k")
  case None
  have lt: "a < Suc (Suc (nextId s))" and ky: "key (heap s a) = k'"
    if "(k', a) \<in> set (queue s)" for k' a
    using assms that by (auto simp: store_ok_def)
  show ?thesis using assms None
    by (auto simp: createQueue_new store_ok_def getRule_frame distinct_Map_set in_Map_set
        split: if_splits intro: lt ky)
next
  case (Some a)
  have lt: "a < Suc (nextId s)" and ky: "key (heap s a) = k'"
    if "(k', a) \<in> set (queue s)" for k' a
    using assms that by (auto simp: store_ok_def)
  show ?thesis using assms Some
    by (auto simp: createQueue_existing store_ok_def distinct_Map_set in_Map_set Map_get_in
        split: if_splits intro: lt ky)
qed

lemma createQueue_in_store:
  assumes "store_ok s"
  shows "(k, fst (createQueue k rq cb rn s)) \<in> set (queue (snd (createQueue k rq cb rn s)))"
  using assms
  by (cases "Map_get (queue s) k")
     (simp_all add: createQueue_new createQueue_existing store_ok_def in_Map_set getRule_frame)


lemma store_ok_frame:
  assumes "store_ok s" and "set (queue s') \<subseteq> set (queue s)"
    and "distinct (map fst (queue s'))"
    and "\<And>a. key (heap s' a) = key (heap s a)" and "nextId s \<le> nextId s'"
  shows "store_ok s'"
  using assms by (fastforce simp: store_ok_def)

lemma add_store_ok:
  assumes "store_ok s"
  shows "store_ok (add rq cb k rn s)"
proof -
  have "store_ok (snd (createQueue k rq cb rn s))" using assms by (rule createQueue_store_ok)
  then show ?thesis
    by (simp add: add_def case_prod_beta store_ok_def execute_frame)
qed

lemma step_store_ok:
  assumes "store_ok s"
  shows "store_ok (step e s)"
proof (cases e)
  case (Request fn k r)
  have "store_ok (s\<lparr>nextId := Suc (nextId s)\<rparr>)"
    using assms by (fastforce simp: store_ok_def)
  then show ?thesis using Request by (simp add: request_fn_def add_store_ok)
next
  case Clear
  then show ?thesis by (simp add: clear_def store_ok_def)
next
  case ShiftResumes
  then show ?thesis using assms
    by (cases "loop s")
       (auto intro!: store_ok_frame [OF assms] simp: shift_def setCooldown_def setTimeout_def
          Let_def store_ok_def split: option.splits list.splits)
next
  case (TimerFires n)
  have ok: "store_ok (s\<lparr>timers := remove_nth n (timers s)\<rparr>)"
    using assms by (simp add: store_ok_def)
  show ?thesis
  proof (cases "snd (timers s ! n)")
    case (RetryDelay it)
    then show ?thesis using TimerFires assms add_store_ok [OF ok]
      by (simp add: run_timer_def)
  next
    case (CooldownTimeout q c)
    have "set (queue (step e s)) \<subseteq> set (queue s)"
      and "distinct (map fst (queue (step e s)))"
      and "\<And>a. key (heap (step e s) a) = key (heap s a)"
      and "nextId s \<le> nextId (step e s)"
      using TimerFires CooldownTimeout assms
      by (auto simp: run_timer_def Let_def remove_def store_ok_def distinct_Map_delete
          in_Map_delete)
    then show ?thesis by (rule store_ok_frame [OF assms])
  next
    case (HeatTimeout l)
    then show ?thesis using TimerFires assms
      by (auto intro!: store_ok_frame [OF assms] simp: run_timer_def store_ok_def)
  qed
next
  case OpReturns
  then show ?thesis using assms
    by (cases "loop s")
       (auto intro!: store_ok_frame [OF assms]
          simp: execute_called_def execute_frame heat_frame store_ok_def)
next
  case LoopWakes
  then show ?thesis using assms
    by (cases "loop s")
       (auto intro!: store_ok_frame [OF assms] simp: findMostImportant_frame store_ok_def)
qed (use assms in \<open>auto intro!: store_ok_frame [OF assms]
      simp: store_ok_def execute_threw_def invoke_callback_def execute_settled_def addRetry_def
        setTimeout_def other_getRule_frame split: loop_state.splits outcome.splits\<close>)

lemma reachable_store_ok: "reachable s \<Longrightarrow> store_ok s"
proof (induction rule: reachable.induct)
  case (reachable_new dr p t0)
  show ?case by (simp add: store_ok_def constructor_at_def Let_def)
next
  case (reachable_step s e)
  then show ?case by (simp add: step_store_ok)
qed


lemma store_ok_get:
  "store_ok s \<Longrightarrow> Map_get (queue s) k = Some a \<Longrightarrow> key (heap s a) = k \<and> a < nextId s"
  by (auto simp: store_ok_def Map_get_in)

lemma inv_fifoD:
  assumes "inv_fifo s"
  shows "it \<in> set (data (heap s a)) \<Longrightarrow> id_d it < nextId s"
    and "d \<in> set (dispatched s) \<Longrightarrow> id_d (d_item d) < nextId s"
    and "sorted_wrt older (data (heap s a))"
    and "Map_get (queue s) (key (heap s a)) = Some b \<Longrightarrow> a \<noteq> b \<Longrightarrow>
         i \<in> set (data (heap s a)) \<Longrightarrow> j \<in> set (data (heap s b)) \<Longrightarrow> older i j"
    and "d \<in> set (dispatched s) \<Longrightarrow> Map_get (queue s) (d_key d) = Some b \<Longrightarrow>
         j \<in> set (data (heap s b)) \<Longrightarrow> older (d_item d) j"
    and "loop s = ShiftPending (Some q) \<Longrightarrow> d \<in> set (dispatched s) \<Longrightarrow>
         d_key d = key (heap s q) \<Longrightarrow> j \<in> set (data (heap s q)) \<Longrightarrow> older (d_item d) j"
    and "sorted_wrt fifo (dispatched s)"
  using assms unfolding inv_fifo_def by blast+

lemma inv_fifoI:
  assumes "\<And>a it. it \<in> set (data (heap s a)) \<Longrightarrow> id_d it < nextId s"
    and "\<And>d. d \<in> set (dispatched s) \<Longrightarrow> id_d (d_item d) < nextId s"
    and "\<And>a. sorted_wrt older (data (heap s a))"
    and "\<And>a b i j. Map_get (queue s) (key (heap s a)) = Some b \<Longrightarrow> a \<noteq> b \<Longrightarrow>
         i \<in> set (data (heap s a)) \<Longrightarrow> j \<in> set (data (heap s b)) \<Longrightarrow> older i j"
    and "\<And>d b j. d \<in> set (dispatched s) \<Longrightarrow> Map_get (queue s) (d_key d) = Some b \<Longrightarrow>
         j \<in> set (data (heap s b)) \<Longrightarrow> older (d_item d) j"
    and "\<And>q d j. loop s = ShiftPending (Some q) \<Longrightarrow> d \<in> set (dispatched s) \<Longrightarrow>
         d_key d = key (heap s q) \<Longrightarrow> j \<in> set (data (heap s q)) \<Longrightarrow> older (d_item d) j"
    and "sorted_wrt fifo (dispatched s)"
  shows "inv_fifo s"
  using assms unfolding inv_fifo_def by blast

lemma createQueue_inv_fifo:
  assumes ok: "store_ok s" and inv: "inv_fifo s"
  shows "inv_fifo (snd (createQueue k rq cb rn s))"
proof (cases "Map_get (queue s) k")
  case None
  let ?n = "nextId s"
  let ?it = "\<lparr>id_d = Suc ?n, request = rq, callback = cb\<rparr>"
  let ?s' = "snd (createQueue k rq cb rn s)"
  have nin: "Map_get (queue s) k' \<noteq> Some ?n" for k'
    using store_ok_get [OF ok, of k' ?n] by auto
  have h: "heap ?s' = (heap s)(?n := \<lparr>id_q = ?n, cooldown = Fin (now s), key = k, data = [?it],
              rule = fst (getRule rn s), ruleName = rn\<rparr>)"
    and g: "Map_get (queue ?s') k' = (if k' = k then Some ?n else Map_get (queue s) k')"
    and n: "nextId ?s' = Suc (Suc ?n)"
    and d: "dispatched ?s' = dispatched s" and l: "loop ?s' = loop s" for k'
    using None by (simp_all add: createQueue_new Map_get_set getRule_frame)
  show ?thesis
  proof (rule inv_fifoI)
    fix a it assume "it \<in> set (data (heap ?s' a))"
    then show "id_d it < nextId ?s'"
      using inv_fifoD(1) [OF inv, of it a] by (auto simp: h n split: if_splits)
  next
    fix d assume "d \<in> set (dispatched ?s')"
    then show "id_d (d_item d) < nextId ?s'"
      using inv_fifoD(2) [OF inv, of d] by (simp add: d n)
  next
    fix a show "sorted_wrt older (data (heap ?s' a))"
      using inv_fifoD(3) [OF inv, of a] by (simp add: h)
  next
    fix a b i j
    assume "Map_get (queue ?s') (key (heap ?s' a)) = Some b" "a \<noteq> b"
      "i \<in> set (data (heap ?s' a))" "j \<in> set (data (heap ?s' b))"
    then show "older i j"
      using inv_fifoD(4) [OF inv, of a b i j] inv_fifoD(1) [OF inv, of i a] nin
      by (auto simp: h g older_def split: if_splits)
  next
    fix d b j
    assume "d \<in> set (dispatched ?s')" "Map_get (queue ?s') (d_key d) = Some b"
      "j \<in> set (data (heap ?s' b))"
    then show "older (d_item d) j"
      using inv_fifoD(5) [OF inv, of d b j] inv_fifoD(2) [OF inv, of d] nin
      by (auto simp: h g d older_def split: if_splits)
  next
    fix q d j
    assume "loop ?s' = ShiftPending (Some q)" "d \<in> set (dispatched ?s')"
      "d_key d = key (heap ?s' q)" "j \<in> set (data (heap ?s' q))"
    then show "older (d_item d) j"
      using inv_fifoD(6) [OF inv, of q d j] inv_fifoD(2) [OF inv, of d]
      by (auto simp: h l d older_def split: if_splits)
  next
    show "sorted_wrt fifo (dispatched ?s')" using inv_fifoD(7) [OF inv] by (simp add: d)
  qed
next
  case (Some a0)
  let ?n = "nextId s"
  let ?it = "\<lparr>id_d = ?n, request = rq, callback = cb\<rparr>"
  let ?s' = "snd (createQueue k rq cb rn s)"
  have ka: "key (heap s a0) = k" using store_ok_get [OF ok Some] by simp
  have h: "heap ?s' = (heap s)(a0 := (heap s a0)\<lparr>data := data (heap s a0) @ [?it]\<rparr>)"
    and g: "Map_get (queue ?s') k' = Map_get (queue s) k'"
    and n: "nextId ?s' = Suc ?n"
    and d: "dispatched ?s' = dispatched s" and l: "loop ?s' = loop s" for k'
    using Some by (simp_all add: createQueue_existing Map_get_set)
  show ?thesis
  proof (rule inv_fifoI)
    fix a it assume "it \<in> set (data (heap ?s' a))"
    then show "id_d it < nextId ?s'"
      using inv_fifoD(1) [OF inv, of it a] by (auto simp: h n split: if_splits)
  next
    fix d assume "d \<in> set (dispatched ?s')"
    then show "id_d (d_item d) < nextId ?s'"
      using inv_fifoD(2) [OF inv, of d] by (simp add: d n)
  next
    fix a show "sorted_wrt older (data (heap ?s' a))"
      using inv_fifoD(3) [OF inv, of a] inv_fifoD(1) [OF inv, of _ a0]
      by (auto simp: h sorted_wrt_append older_def)
  next
    fix a b i j
    assume "Map_get (queue ?s') (key (heap ?s' a)) = Some b" "a \<noteq> b"
      "i \<in> set (data (heap ?s' a))" "j \<in> set (data (heap ?s' b))"
    then have m: "Map_get (queue s) (key (heap ?s' a)) = Some b" and ab: "a \<noteq> b"
      and i: "i \<in> set (data (heap ?s' a))" and j: "j \<in> set (data (heap ?s' b))"
      by (simp_all add: g)
    have a: "a \<noteq> a0" using m ab Some by (auto simp: h ka)
    then have ia: "i \<in> set (data (heap s a))" and m': "Map_get (queue s) (key (heap s a)) = Some b"
      using i m by (simp_all add: h)
    show "older i j"
    proof (cases "j \<in> set (data (heap s b))")
      case True
      then show ?thesis using inv_fifoD(4) [OF inv m' ab ia] by simp
    next
      case False
      then have "j = ?it" using j by (auto simp: h split: if_splits)
      then show ?thesis using inv_fifoD(1) [OF inv ia] by (simp add: older_def)
    qed
  next
    fix d b j
    assume "d \<in> set (dispatched ?s')" "Map_get (queue ?s') (d_key d) = Some b"
      "j \<in> set (data (heap ?s' b))"
    then show "older (d_item d) j"
      using inv_fifoD(5) [OF inv, of d b j] inv_fifoD(2) [OF inv, of d]
      by (auto simp: h g d older_def split: if_splits)
  next
    fix q d j
    assume "loop ?s' = ShiftPending (Some q)" "d \<in> set (dispatched ?s')"
      "d_key d = key (heap ?s' q)" "j \<in> set (data (heap ?s' q))"
    then show "older (d_item d) j"
      using inv_fifoD(6) [OF inv, of q d j] inv_fifoD(2) [OF inv, of d]
      by (auto simp: h l d older_def split: if_splits)
  next
    show "sorted_wrt fifo (dispatched ?s')" using inv_fifoD(7) [OF inv] by (simp add: d)
  qed
qed


lemma Map_get_delete:
  "Map_get (Map_delete k m) k' = (if k' = k then None else Map_get m k')"
  by (simp add: Map_get_def Map_delete_def delete_conv')

text \<open>
  What an event other than a submission or a pop may do: leave the items and keys of all
  partition objects alone, only drop partitions from the store, and hand to the continuation
  of \<^verbatim>\<open>shift\<close> only a partition that is the one stored under its key.
\<close>

lemma inv_fifo_frame:
  assumes inv: "inv_fifo s"
    and h: "\<And>a. data (heap s' a) = data (heap s a) \<and> key (heap s' a) = key (heap s a)"
    and g: "\<And>k b. Map_get (queue s') k = Some b \<Longrightarrow> Map_get (queue s) k = Some b"
    and d: "dispatched s' = dispatched s" and n: "nextId s \<le> nextId s'"
    and l: "\<And>q. loop s' = ShiftPending (Some q) \<Longrightarrow>
          loop s = ShiftPending (Some q) \<or> Map_get (queue s) (key (heap s q)) = Some q"
  shows "inv_fifo s'"
proof (rule inv_fifoI)
  fix a it assume "it \<in> set (data (heap s' a))"
  then show "id_d it < nextId s'" using inv_fifoD(1) [OF inv, of it a] n by (simp add: h)
next
  fix d' assume "d' \<in> set (dispatched s')"
  then show "id_d (d_item d') < nextId s'" using inv_fifoD(2) [OF inv, of d'] n by (simp add: d)
next
  fix a show "sorted_wrt older (data (heap s' a))" using inv_fifoD(3) [OF inv, of a] by (simp add: h)
next
  fix a b i j
  assume "Map_get (queue s') (key (heap s' a)) = Some b" "a \<noteq> b"
    "i \<in> set (data (heap s' a))" "j \<in> set (data (heap s' b))"
  then show "older i j" using inv_fifoD(4) [OF inv, of a b i j] g [of "key (heap s a)" b]
    by (simp add: h)
next
  fix d' b j
  assume "d' \<in> set (dispatched s')" "Map_get (queue s') (d_key d') = Some b"
    "j \<in> set (data (heap s' b))"
  then show "older (d_item d') j" using inv_fifoD(5) [OF inv, of d' b j] g [of "d_key d'" b]
    by (simp add: h d)
next
  fix q d' j
  assume q: "loop s' = ShiftPending (Some q)" and d': "d' \<in> set (dispatched s')"
    and k: "d_key d' = key (heap s' q)" and j: "j \<in> set (data (heap s' q))"
  from l [OF q] show "older (d_item d') j"
  proof
    assume "loop s = ShiftPending (Some q)"
    then show ?thesis using inv_fifoD(6) [OF inv, of q d' j] d' k j by (simp add: h d)
  next
    assume "Map_get (queue s) (key (heap s q)) = Some q"
    then show ?thesis using inv_fifoD(5) [OF inv, of d' q j] d' k j by (simp add: h d)
  qed
next
  show "sorted_wrt fifo (dispatched s')" using inv_fifoD(7) [OF inv] by (simp add: d)
qed

lemma scan_inv_fifo:
  assumes "store_ok s" and "inv_fifo s"
  shows "inv_fifo (findMostImportant None s)"
proof (rule inv_fifo_frame [OF assms(2)])
  fix q assume "loop (findMostImportant None s) = ShiftPending (Some q)"
  from scan_selected [OF this] obtain k where "(k, q) \<in> set (queue s)" by blast
  then have "Map_get (queue s) (key (heap s q)) = Some q"
    using assms(1) by (auto simp: store_ok_def Map_get_in)
  then show "loop s = ShiftPending (Some q) \<or> Map_get (queue s) (key (heap s q)) = Some q" ..
qed (simp_all add: findMostImportant_frame)

lemma add_inv_fifo:
  assumes "store_ok s" and "inv_fifo s"
  shows "inv_fifo (add rq cb k rn s)"
proof -
  let ?c = "createQueue k rq cb rn s"
  have ok: "store_ok (snd ?c)" using assms(1) by (rule createQueue_store_ok)
  have inv: "inv_fifo (snd ?c)" using assms by (rule createQueue_inv_fifo)
  show ?thesis
  proof (cases "pending s")
    case True
    then show ?thesis using inv by (simp add: add_def case_prod_beta createQueue_frame)
  next
    case False
    then have eq: "add rq cb k rn s = (snd ?c)\<lparr>pending := True, loop := ShiftPending (Some (fst ?c))\<rparr>"
      by (simp add: add_def case_prod_beta createQueue_frame execute_def findMostImportant_def)
    have "Map_get (queue (snd ?c)) (key (heap (snd ?c) (fst ?c))) = Some (fst ?c)"
      using createQueue_in_store [OF assms(1), of k rq cb rn] ok
      by (auto simp: store_ok_def Map_get_in)
    then show ?thesis unfolding eq by (intro inv_fifo_frame [OF inv]) simp_all
  qed
qed

lemma run_timer_inv_fifo:
  assumes "store_ok s" and "inv_fifo s" and "macrotask_ok (loop s)"
  shows "inv_fifo (run_timer cb s)"
proof (cases cb)
  case (CooldownTimeout q c)
  have "\<forall>q'. loop s \<noteq> ShiftPending (Some q')" using assms(3) by (cases "loop s") auto
  then show ?thesis
    unfolding CooldownTimeout
    by (intro inv_fifo_frame [OF assms(2)])
       (auto simp: run_timer_def Let_def remove_def Map_get_delete split: if_splits)
next
  case (HeatTimeout l)
  show ?thesis unfolding HeatTimeout
    by (intro inv_fifo_frame [OF assms(2)]) (auto simp: run_timer_def)
next
  case (RetryDelay it)
  then show ?thesis using add_inv_fifo [OF assms(1,2)] by (simp add: run_timer_def)
qed


lemma shift_inv_fifo:
  assumes "inv_fifo s" and "loop s = ShiftPending cq"
  shows "inv_fifo (shift cq s)"
proof -
  have triv: "inv_fifo (s\<lparr>loop := NoLoop\<rparr>)"
    by (rule inv_fifo_frame [OF assms(1)]) simp_all
  show ?thesis
  proof (cases cq)
    case None
    then show ?thesis using triv by (simp add: shift_def)
  next
    case (Some q)
    show ?thesis
    proof (cases "data (heap s q)")
      case Nil
      then show ?thesis using triv Some by (simp add: shift_def)
    next
      case (Cons it rest)
      show ?thesis
      proof (cases "rules_at (rules (params s)) (ruleName (heap s q))")
        case None
        then show ?thesis using triv Cons \<open>cq = Some q\<close> by (simp add: shift_def setCooldown_def setTimeout_def)
      next
        case (Some r)
        let ?d = "\<lparr>d_time = now s, d_queue = q, d_key = key (heap s q),
                   d_cooldown = cooldown (heap s q), d_item = it\<rparr>"
        let ?s' = "shift cq s"
        have lq: "loop s = ShiftPending (Some q)" using assms(2) \<open>cq = Some q\<close> by simp
        have h: "data (heap ?s' a) = (if a = q then rest else data (heap s a))"
          and ky: "key (heap ?s' a) = key (heap s a)"
          and g: "queue ?s' = queue s" and n: "nextId ?s' = nextId s"
          and d: "dispatched ?s' = dispatched s @ [?d]"
          and l: "loop ?s' = Invoking \<lparr>nextItem = \<lparr>queue_s = q, item = it\<rparr>,
                                retryState = False, retryTimer = Fin 0\<rparr>" for a
          using Cons Some \<open>cq = Some q\<close> by (simp_all add: shift_def setCooldown_def setTimeout_def Let_def)
        have sub: "j \<in> set (data (heap s a))" if "j \<in> set (data (heap ?s' a))" for j a
          using that Cons by (auto simp: h split: if_splits)
        have itq: "it \<in> set (data (heap s q))" using Cons by simp
        have srt: "sorted_wrt older (it # rest)" using inv_fifoD(3) [OF assms(1), of q] Cons by simp
        show ?thesis
        proof (rule inv_fifoI)
          fix a j assume "j \<in> set (data (heap ?s' a))"
          then show "id_d j < nextId ?s'" using inv_fifoD(1) [OF assms(1) sub] by (simp add: n)
        next
          fix d' assume "d' \<in> set (dispatched ?s')"
          then show "id_d (d_item d') < nextId ?s'"
            using inv_fifoD(2) [OF assms(1), of d'] inv_fifoD(1) [OF assms(1) itq]
            by (auto simp: d n)
        next
          fix a show "sorted_wrt older (data (heap ?s' a))"
            using inv_fifoD(3) [OF assms(1), of a] srt by (simp add: h)
        next
          fix a b i j
          assume "Map_get (queue ?s') (key (heap ?s' a)) = Some b" "a \<noteq> b"
            "i \<in> set (data (heap ?s' a))" "j \<in> set (data (heap ?s' b))"
          then show "older i j"
            using inv_fifoD(4) [OF assms(1), of a b i j] sub by (simp add: g ky)
        next
          fix d' b j
          assume d': "d' \<in> set (dispatched ?s')" and m: "Map_get (queue ?s') (d_key d') = Some b"
            and j: "j \<in> set (data (heap ?s' b))"
          show "older (d_item d') j"
          proof (cases "d' \<in> set (dispatched s)")
            case True
            then show ?thesis using inv_fifoD(5) [OF assms(1) True, of b j] m sub [OF j]
              by (simp add: g)
          next
            case False
            then have e: "d' = ?d" using d' by (simp add: d)
            show ?thesis
            proof (cases "b = q")
              case True
              then show ?thesis using j srt by (simp add: h e)
            next
              case False
              then show ?thesis
                using inv_fifoD(4) [OF assms(1), of q b it j] m sub [OF j] itq
                by (simp add: e g)
            qed
          qed
        next
          fix q' d' j assume "loop ?s' = ShiftPending (Some q')"
          then show "older (d_item d') j" by (simp add: l)
        next
          have "fifo d' ?d" if "d' \<in> set (dispatched s)" for d'
            using inv_fifoD(6) [OF assms(1) lq that _ itq] by (simp add: fifo_def)
          then show "sorted_wrt fifo (dispatched ?s')"
            using inv_fifoD(7) [OF assms(1)] by (simp add: d sorted_wrt_append)
        qed
      qed
    qed
  qed
qed

lemma step_inv_fifo:
  assumes "store_ok s" and "inv_fifo s"
  shows "inv_fifo (step e s)"
proof -
  have ok: "store_ok s" using assms(1) .
  show ?thesis
  proof (cases e)
    case (Tick d)
    then show ?thesis by (auto intro!: inv_fifo_frame [OF assms(2)] simp: assms(2))
  next
    case (Request fn k r)
    have "store_ok (s\<lparr>nextId := Suc (nextId s)\<rparr>)"
      using ok by (fastforce simp: store_ok_def)
    moreover have "inv_fifo (s\<lparr>nextId := Suc (nextId s)\<rparr>)"
      by (rule inv_fifo_frame [OF assms(2)]) simp_all
    ultimately show ?thesis using Request by (simp add: request_fn_def add_inv_fifo)
  next
    case Clear
    then show ?thesis
      by (auto intro!: inv_fifo_frame [OF assms(2)] simp: clear_def Map_get_def)
  next
    case (RetryNow d)
    then show ?thesis
      by (cases "loop s") (auto intro!: inv_fifo_frame [OF assms(2)] simp: assms(2))
  next
    case (RetryLater n d)
    then show ?thesis by (auto intro!: inv_fifo_frame [OF assms(2)] simp: assms(2))
  next
    case ShiftResumes
    then show ?thesis using assms by (cases "loop s") (simp_all add: shift_inv_fifo)
  next
    case (OpThrows err)
    then show ?thesis
      by (cases "loop s")
         (auto intro!: inv_fifo_frame [OF assms(2)]
            simp: assms(2) execute_threw_def invoke_callback_def)
  next
    case OpReturns
    show ?thesis
    proof (cases "loop s")
      case (Invoking x)
      let ?s1 = "heat (s\<lparr>running := running s @ [x]\<rparr>)\<lparr>pending := True\<rparr>"
      have "store_ok ?s1" using ok by (auto simp: store_ok_def heat_frame)
      moreover have "inv_fifo ?s1"
        using Invoking by (intro inv_fifo_frame [OF assms(2)]) (auto simp: heat_frame)
      ultimately show ?thesis using OpReturns Invoking
        by (simp add: execute_called_def execute_def scan_inv_fifo)
    qed (simp_all add: OpReturns assms)
  next
    case (OpSettles n res)
    then show ?thesis
      by (auto intro!: inv_fifo_frame [OF assms(2)]
          simp: assms(2) execute_settled_def invoke_callback_def addRetry_def setTimeout_def
          split: outcome.splits)
  next
    case (TimerFires n)
    have "store_ok (s\<lparr>timers := remove_nth n (timers s)\<rparr>)"
      using ok by (simp add: store_ok_def)
    moreover have "inv_fifo (s\<lparr>timers := remove_nth n (timers s)\<rparr>)"
      by (rule inv_fifo_frame [OF assms(2)]) simp_all
    ultimately show ?thesis using TimerFires assms(2) by (simp add: run_timer_inv_fifo)
  next
    case LoopWakes
    then show ?thesis using ok assms(2) by (cases "loop s") (simp_all add: scan_inv_fifo)
  next
    case (OtherResolves d name)
    then show ?thesis
      by (auto intro!: inv_fifo_frame [OF assms(2)] simp: other_getRule_frame)
  qed
qed

lemma constructor_inv_fifo: "inv_fifo (constructor_at dr p t0)"
  by (simp add: inv_fifo_def constructor_at_def Let_def emptyQueueItem_def)

lemma reachable_inv_fifo: "reachable s \<Longrightarrow> inv_fifo s"
  by (induction rule: reachable.induct)
     (simp_all add: constructor_inv_fifo step_inv_fifo reachable_store_ok)


lemma add_appends:
  "\<exists>a i. nextId s \<le> i \<and> Map_get (queue (add rq cb k rn s)) k = Some a \<and>
     data (heap (add rq cb k rn s) a) =
       (case Map_get (queue s) k of None \<Rightarrow> [] | Some b \<Rightarrow> data (heap s b))
       @ [\<lparr>id_d = i, request = rq, callback = cb\<rparr>]"
proof (cases "Map_get (queue s) k")
  case None
  then show ?thesis
    by (intro exI [of _ "nextId s"] exI [of _ "Suc (nextId s)"])
       (simp add: add_heap_queue createQueue_new Map_get_set)
next
  case (Some b)
  then show ?thesis
    by (intro exI [of _ b] exI [of _ "nextId s"])
       (simp add: add_heap_queue createQueue_existing Map_get_set)
qed

text \<open>
  The order that the code keeps. Item ids are drawn from a counter at submission, so of two submissions
  the earlier has the smaller id. In every reachable state: of two popped items submitted
  under the same key, the one submitted first was popped first; everything still queued in
  the partition stored under a key was submitted after everything popped under that key; a
  submission puts its item last in the partition stored under its key, behind everything
  queued there; and a pop takes the first item of the partition.
\<close>

lemma pops_in_submission_order:
  assumes "reachable s"
  shows "(\<forall>i j. i < length (dispatched s) \<and> j < length (dispatched s) \<and>
            d_key (dispatched s ! i) = d_key (dispatched s ! j) \<and>
            id_d (d_item (dispatched s ! i)) < id_d (d_item (dispatched s ! j)) \<longrightarrow> i < j)
    \<and> (\<forall>d \<in> set (dispatched s). \<forall>b. Map_get (queue s) (d_key d) = Some b \<longrightarrow>
          (\<forall>it \<in> set (data (heap s b)). id_d (d_item d) < id_d it))
    \<and> (\<forall>a. \<forall>it \<in> set (data (heap s a)). id_d it < nextId s)
    \<and> (\<forall>d \<in> set (dispatched s). id_d (d_item d) < nextId s)
    \<and> (\<forall>rq cb k rn. \<exists>a i. nextId s \<le> i \<and> Map_get (queue (add rq cb k rn s)) k = Some a \<and>
          data (heap (add rq cb k rn s) a) =
            (case Map_get (queue s) k of None \<Rightarrow> [] | Some b \<Rightarrow> data (heap s b))
            @ [\<lparr>id_d = i, request = rq, callback = cb\<rparr>])
    \<and> (\<forall>q it rest r. loop s = ShiftPending (Some q) \<and> data (heap s q) = it # rest \<and>
          rules_at (rules (params s)) (ruleName (heap s q)) = Some r \<longrightarrow>
            data (heap (step ShiftResumes s) q) = rest \<and>
            (\<exists>t c. dispatched (step ShiftResumes s) =
               dispatched s @ [\<lparr>d_time = t, d_queue = q, d_key = key (heap s q),
                                d_cooldown = c, d_item = it\<rparr>]))"
proof -
  have inv: "inv_fifo s" using assms by (rule reachable_inv_fifo)
  have srt: "sorted_wrt fifo (dispatched s)" using inv by (rule inv_fifoD(7))
  have order: "i < j"
    if "i < length (dispatched s) \<and> j < length (dispatched s) \<and>
        d_key (dispatched s ! i) = d_key (dispatched s ! j) \<and>
        id_d (d_item (dispatched s ! i)) < id_d (d_item (dispatched s ! j))" for i j
  proof (rule ccontr)
    assume "\<not> i < j"
    then consider "i = j" | "j < i" by linarith
    then show False
    proof cases
      case 1
      then show False using that by simp
    next
      case 2
      then have "fifo (dispatched s ! j) (dispatched s ! i)"
        using srt that by (simp add: sorted_wrt_iff_nth_less)
      then show False using that by (simp add: fifo_def older_def)
    qed
  qed
  have queued: "id_d (d_item d) < id_d it"
    if "d \<in> set (dispatched s)" "Map_get (queue s) (d_key d) = Some b"
       "it \<in> set (data (heap s b))" for d b it
    using inv_fifoD(5) [OF inv that] by (simp add: older_def)
  have pop: "data (heap (step ShiftResumes s) q) = rest \<and>
      (\<exists>t c. dispatched (step ShiftResumes s) =
         dispatched s @ [\<lparr>d_time = t, d_queue = q, d_key = key (heap s q),
                          d_cooldown = c, d_item = it\<rparr>])"
    if "loop s = ShiftPending (Some q) \<and> data (heap s q) = it # rest \<and>
        rules_at (rules (params s)) (ruleName (heap s q)) = Some r" for q it rest r
    using that by (simp add: shift_def setCooldown_def setTimeout_def Let_def)
  show ?thesis
    using order queued inv_fifoD(1,2) [OF inv] add_appends [of s] pop by blast
qed

subsection \<open>An item lost to a stale timeout\<close>

text \<open>An item is only ever popped from the partition that the loop has selected.\<close>

lemma step_dispatched:
  "\<exists>new. dispatched (step e s) = dispatched s @ new \<and>
     (\<lambda>d. callback (d_item d)) ` set new \<subseteq> selected_cb s"
proof (cases e)
  case (Request fn k r)
  then show ?thesis
    by (simp add: request_fn_def add_def case_prod_beta execute_frame createQueue_frame)
next
  case ShiftResumes
  then show ?thesis
    by (auto simp: shift_def setCooldown_def setTimeout_def Let_def selected_cb_def
        split: loop_state.splits option.splits list.splits)
next
  case (TimerFires n)
  then show ?thesis
    by (cases "snd (timers s ! n)")
       (simp_all add: run_timer_def Let_def remove_def add_def case_prod_beta execute_frame
          createQueue_frame)
qed (simp_all add: clear_def execute_threw_def invoke_callback_def execute_called_def
    execute_frame heat_frame execute_settled_def addRetry_def setTimeout_def
    findMostImportant_frame other_getRule_frame split: loop_state.splits outcome.splits)

lemma run_never_popped:
  assumes "c < nextId s" and "c \<notin> live s"
  shows "pops c (run es s) = pops c s"
  using assms
proof (induction es arbitrary: s)
  case Nil
  show ?case by simp
next
  case (Cons e es)
  from step_dispatched [of e s] obtain new where
    n: "dispatched (step e s) = dispatched s @ new"
      "(\<lambda>d. callback (d_item d)) ` set new \<subseteq> selected_cb s" by blast
  have "filter (\<lambda>d. callback (d_item d) = c) new = []"
    using n(2) Cons.prems(2) by (auto simp: live_def filter_empty_conv)
  then have "pops c (step e s) = pops c s" by (simp add: pops_def n(1))
  moreover have "c < nextId (step e s) \<and> c \<notin> live (step e s)"
    using step_dead [OF Cons.prems, of e] by simp
  ultimately show ?case using Cons.IH [of "step e s"] by simp
qed

text \<open>
  C2 does not hold of the code. The cooldown timeout of a partition removes from the store
  whatever is stored under the key of that partition, also when this is by now another
  partition object with items in it. In \<open>state_second_queued\<close> the store holds the second
  request for \<open>k\<close> in a new partition, and the timeout of the first partition, which
  \<^verbatim>\<open>clear()\<close> took out of the store, is due. When it runs it finds its own partition empty
  and deletes the key \<open>k\<close>, so the new partition leaves the store with the second request
  in it. The third request for \<open>k\<close>, submitted later, is popped at once. The second one,
  submitted before it under the same key, is held by nothing that the loop can reach:
  whatever happens afterwards, it is never popped and its callback is never invoked.
\<close>

theorem stale_timeout_loses_item:
  "queue state_second_queued = [(''k'', 4)]
   \<and> data (heap state_second_queued 4) = [\<lparr>id_d = 5, request = 2, callback = 3\<rparr>]
   \<and> timers state_second_queued = [((0, Fin 100), CooldownTimeout 1 (Fin 100))]
   \<and> key (heap state_second_queued 1) = ''k''
   \<and> now state_second_queued = 100
   \<and> queue (step (TimerFires 0) state_second_queued) = []
   \<and> map (\<lambda>d. (d_time d, d_key d, id_d (d_item d), request (d_item d))) (dispatched state_lost)
        = [(0, ''k'', 2, 1), (100, ''k'', 8, 3)]
   \<and> (\<forall>es. pops 3 (run es state_lost) = [] \<and> invocations 3 (run es state_lost) = [])"
proof -
  have a: "queue state_second_queued = [(''k'', 4)]"
    "data (heap state_second_queued 4) = [\<lparr>id_d = 5, request = 2, callback = 3\<rparr>]"
    "timers state_second_queued = [((0, Fin 100), CooldownTimeout 1 (Fin 100))]"
    "key (heap state_second_queued 1) = ''k''"
    "now state_second_queued = 100"
    "queue (step (TimerFires 0) state_second_queued) = []"
    by (simp_all add: state_second_queued_def run_defs cfg_q1_def)
  have b: "map (\<lambda>d. (d_time d, d_key d, id_d (d_item d), request (d_item d))) (dispatched state_lost)
        = [(0, ''k'', 2, 1), (100, ''k'', 8, 3)]"
    by (simp add: state_lost_def state_second_queued_def run_defs cfg_q1_def)
  have lt: "3 < nextId state_lost"
    by (simp add: state_lost_def state_second_queued_def run_defs cfg_q1_def)
  have dead: "3 \<notin> live state_lost"
    by (simp add: state_lost_def state_second_queued_def run_defs cfg_q1_def live_def
        stored_cbs_def queued_cbs_def selected_cb_def in_hand_def cb_of_def)
  have now: "pops 3 state_lost = []" "invocations 3 state_lost = []"
    by (simp_all add: state_lost_def state_second_queued_def run_defs cfg_q1_def pops_def
        invocations_def)
  have "pops 3 (run es state_lost) = [] \<and> invocations 3 (run es state_lost) = []" for es
    using run_never_popped [OF lt dead, of es] run_dead [OF lt dead, of es] now by simp
  then show ?thesis using a b by blast
qed

end
